theory Spec2Isabelle
  imports Complex_Main "HOL-Library.Sublist"
begin

section \<open>Strings\<close>

text \<open>
  Python strings are modelled as \<^typ>\<open>string\<close>, a character being a code point below 256;
  the model covers the strings made of such characters. On them \<open>str.lower\<close> is exact: it
  adds 32 to the codes 65 to 90 (\<open>A\<close> to \<open>Z\<close>) and to the codes 192 to 222 but 215 (the
  accented capitals), and leaves every other character alone. \<open>str.isspace\<close>, the white
  space that \<open>str.strip\<close> and \<open>str.split\<close> remove, holds of the codes 9 to 13, 28 to 32,
  133 and 160. Upper-casing, which only \<open>capitalize\<close> uses, takes 32 from the codes 97 to
  122 and 224 to 254 but 247; the micro sign (181), the sharp s (223) and the y with
  diaeresis (255), whose upper-case forms are no code points below 256, are left alone.
\<close>

definition has_lower :: "nat \<Rightarrow> bool" where
  "has_lower k = ((65 \<le> k \<and> k \<le> 90) \<or> (192 \<le> k \<and> k \<le> 222 \<and> k \<noteq> 215))"

definition has_upper :: "nat \<Rightarrow> bool" where
  "has_upper k = ((97 \<le> k \<and> k \<le> 122) \<or> (224 \<le> k \<and> k \<le> 254 \<and> k \<noteq> 247))"

definition lower_char :: "char \<Rightarrow> char" where
  "lower_char c = (let k = (of_char c :: nat) in if has_lower k then char_of (k + 32) else c)"

definition upper_char :: "char \<Rightarrow> char" where
  "upper_char c = (let k = (of_char c :: nat) in if has_upper k then char_of (k - 32) else c)"

definition lower :: "string \<Rightarrow> string" where
  "lower s = map lower_char s"

definition is_space :: "char \<Rightarrow> bool" where
  "is_space c =
     (let k = (of_char c :: nat)
      in (9 \<le> k \<and> k \<le> 13) \<or> (28 \<le> k \<and> k \<le> 32) \<or> k = 133 \<or> k = 160)"

definition lstrip :: "string \<Rightarrow> string" where
  "lstrip s = dropWhile is_space s"

definition rstrip :: "string \<Rightarrow> string" where
  "rstrip s = rev (dropWhile is_space (rev s))"

definition strip :: "string \<Rightarrow> string" where
  "strip s = rstrip (lstrip s)"

section \<open>The progress tracker\<close>

text \<open>
  \<open>ProgressTracker.data\<close> is the dictionary that \<open>_save\<close> dumps to \<open>data/progress.json\<close>:
  the keys \<open>campaign\<close>, \<open>sent\<close> (a list, in insertion order), \<open>failed\<close> (a dictionary from
  address to the last error text, in insertion order), \<open>last_updated\<close>, \<open>daily_count\<close> and
  \<open>daily_date\<close> (\<open>None\<close> or an ISO date). \<open>None\<close> is \<^const>\<open>None\<close>.
\<close>

record ledger =
  campaign :: string
  sent :: "string list"
  failed :: "(string \<times> string) list"
  last_updated :: "string option"
  daily_count :: int
  daily_date :: "string option"

text \<open>
  The tracker object: the dictionary in memory and the documents that \<open>_save\<close> has written
  to the progress file since the object was created, oldest first. The file holds the last
  of them; when the list is empty the file is as it was found.
\<close>

record tracker =
  data :: ledger
  written :: "ledger list"

definition empty_ledger :: ledger where
  "empty_ledger =
     \<lparr>campaign = ''email-campaign'', sent = [], failed = [], last_updated = None,
      daily_count = 0, daily_date = None\<rparr>"

text \<open>\<open>_save\<close>: stamps \<open>last_updated\<close> with the clock reading \<open>now\<close> and writes the dictionary.\<close>

definition save :: "string \<Rightarrow> tracker \<Rightarrow> tracker" where
  "save now tr =
     (let d = (data tr)\<lparr>last_updated := Some now\<rparr>
      in tr\<lparr>data := d, written := written tr @ [d]\<rparr>)"

definition is_sent :: "tracker \<Rightarrow> string \<Rightarrow> bool" where
  "is_sent tr email = (lower email \<in> set (map lower (sent (data tr))))"

text \<open>\<open>dict[key] = value\<close> on an insertion-ordered dictionary.\<close>

fun dict_set :: "('k \<times> 'v) list \<Rightarrow> 'k \<Rightarrow> 'v \<Rightarrow> ('k \<times> 'v) list" where
  "dict_set [] k v = [(k, v)]"
| "dict_set ((k', v') # kvs) k v =
     (if k' = k then (k, v) # kvs else (k', v') # dict_set kvs k v)"

text \<open>\<open>_update_daily_count\<close>; \<open>today\<close> is the UTC date the clock gives.\<close>

definition update_daily_count :: "string \<Rightarrow> tracker \<Rightarrow> tracker" where
  "update_daily_count today tr =
     (if daily_date (data tr) \<noteq> Some today
      then tr\<lparr>data := (data tr)\<lparr>daily_date := Some today, daily_count := 1\<rparr>\<rparr>
      else tr\<lparr>data := (data tr)\<lparr>daily_count := daily_count (data tr) + 1\<rparr>\<rparr>)"

definition mark_sent :: "string \<Rightarrow> string \<Rightarrow> string \<Rightarrow> tracker \<Rightarrow> tracker" where
  "mark_sent today now email tr =
     save now (update_daily_count today
       (tr\<lparr>data := (data tr)\<lparr>sent := sent (data tr) @ [email]\<rparr>\<rparr>))"

definition mark_failed :: "string \<Rightarrow> string \<Rightarrow> string \<Rightarrow> tracker \<Rightarrow> tracker" where
  "mark_failed now email reason tr =
     save now (tr\<lparr>data := (data tr)\<lparr>failed := dict_set (failed (data tr)) email reason\<rparr>\<rparr>)"

definition get_daily_count :: "string \<Rightarrow> tracker \<Rightarrow> int" where
  "get_daily_count today tr =
     (if daily_date (data tr) \<noteq> Some today then 0 else daily_count (data tr))"

definition reset :: "string \<Rightarrow> tracker \<Rightarrow> tracker" where
  "reset now tr = save now (tr\<lparr>data := empty_ledger\<rparr>)"

section \<open>The template expander\<close>

text \<open>
  The module \<open>random\<close> is modelled as a stream of natural numbers \<open>r\<close> with a read
  position \<open>n\<close>: \<open>random.choice(seq)\<close> takes \<open>seq[r n mod len(seq)]\<close> and moves the position
  on by one. Every sequence of picks that \<open>random.choice\<close> can make is the behaviour of
  some \<open>r\<close>; how likely each one is lies outside the model. \<open>random.choice\<close> is only ever
  called on the result of \<open>str.split\<close>, which is never empty.
\<close>

definition choice :: "(nat \<Rightarrow> nat) \<Rightarrow> nat \<Rightarrow> 'a list \<Rightarrow> 'a" where
  "choice r n seq = seq ! (r n mod length seq)"

text \<open>\<open>s.split(sep)\<close> for a one-character separator.\<close>

fun split_on :: "char \<Rightarrow> string \<Rightarrow> string list" where
  "split_on sep [] = [[]]"
| "split_on sep (c # cs) =
     (if c = sep then [] # split_on sep cs
      else (case split_on sep cs of [] \<Rightarrow> [[c]] | x # xs \<Rightarrow> (c # x) # xs))"

text \<open>
  The regular expression \<open>\{([^{}]+)\}\<close>: an opening brace, one or more characters other
  than braces, a closing brace. \<open>group_at cs\<close> matches the part after the opening brace
  against \<open>cs\<close> and gives the captured group and the text after the closing brace. The
  character class cannot pass a brace, so the engine has no other way to match.
\<close>

definition not_brace :: "char \<Rightarrow> bool" where
  "not_brace c = (c \<noteq> CHR ''{'' \<and> c \<noteq> CHR ''}'')"

definition group_at :: "string \<Rightarrow> (string \<times> string) option" where
  "group_at cs =
     (let grp = takeWhile not_brace cs; rest = dropWhile not_brace cs
      in if grp \<noteq> [] \<and> rest \<noteq> [] \<and> hd rest = CHR ''}'' then Some (grp, tl rest) else None)"

text \<open>\<open>re.search(pattern, text)\<close>: is there a match anywhere in the text.\<close>

fun search_spin :: "string \<Rightarrow> bool" where
  "search_spin [] = False"
| "search_spin (c # cs) = ((c = CHR ''{'' \<and> group_at cs \<noteq> None) \<or> search_spin cs)"

lemma group_at_shorter: "group_at cs = Some (grp, rest) \<Longrightarrow> length rest < length cs"
proof -
  assume a: "group_at cs = Some (grp, rest)"
  then have "rest = tl (dropWhile not_brace cs)" and "dropWhile not_brace cs \<noteq> []"
    by (auto simp: group_at_def Let_def split: if_splits)
  moreover have "length (dropWhile not_brace cs) \<le> length cs"
    by (rule length_dropWhile_le)
  ultimately show ?thesis
    by (cases "dropWhile not_brace cs") auto
qed

text \<open>\<open>replace_spin\<close>: the options of a matched group, and one of them picked.\<close>

definition replace_spin :: "(nat \<Rightarrow> nat) \<Rightarrow> nat \<Rightarrow> string \<Rightarrow> string" where
  "replace_spin r n grp = (let options = split_on CHR ''|'' grp in choice r n options)"

text \<open>
  \<open>re.sub(pattern, replace_spin, text)\<close>: one pass from left to right that replaces every
  match, found from the end of the previous one, by \<open>random.choice\<close> of its options.
\<close>

function sub_spin :: "(nat \<Rightarrow> nat) \<Rightarrow> nat \<Rightarrow> string \<Rightarrow> string \<times> nat" where
  "sub_spin r n [] = ([], n)"
| "sub_spin r n (c # cs) =
     (case (if c = CHR ''{'' then group_at cs else None) of
        Some (grp, rest) \<Rightarrow>
          (let opt = replace_spin r n grp;
               (out, n') = sub_spin r (Suc n) rest
           in (opt @ out, n'))
      | None \<Rightarrow> (let (out, n') = sub_spin r n cs in (c # out, n')))"
  by pat_completeness auto
termination
  by (relation "measure (\<lambda>(r, n, s). length s)") (auto dest: group_at_shorter split: if_splits)

lemma split_on_not_Nil: "split_on sep s \<noteq> []"
  by (induction s) (auto split: list.splits)

lemma split_on_length_all: "\<forall>x \<in> set (split_on sep s). length x \<le> length s"
  by (induction s) (auto split: list.splits simp: le_Suc_eq split_on_not_Nil)

lemma split_on_length: "x \<in> set (split_on sep s) \<Longrightarrow> length x \<le> length s"
  using split_on_length_all by blast


lemma choice_mem: "seq \<noteq> [] \<Longrightarrow> choice r n seq \<in> set seq"
  by (simp add: choice_def)

lemma group_at_Some:
  "group_at cs = Some (grp, rest) \<Longrightarrow> cs = grp @ CHR ''}'' # rest \<and> grp \<noteq> [] \<and> (\<forall>c \<in> set grp. not_brace c)"
proof -
  assume a: "group_at cs = Some (grp, rest)"
  then have g: "grp = takeWhile not_brace cs" and r: "rest = tl (dropWhile not_brace cs)"
    and ne: "dropWhile not_brace cs \<noteq> []" and h: "hd (dropWhile not_brace cs) = CHR ''}''"
    and gne: "grp \<noteq> []"
    by (auto simp: group_at_def Let_def split: if_splits)
  from ne h r have "dropWhile not_brace cs = CHR ''}'' # rest"
    by (cases "dropWhile not_brace cs") auto
  then have "cs = grp @ CHR ''}'' # rest"
    using g takeWhile_dropWhile_id [of not_brace cs] by simp
  moreover have "\<forall>c \<in> set grp. not_brace c"
    using g by (auto dest: set_takeWhileD)
  ultimately show ?thesis using gne by simp
qed

declare replace_spin_def [simp]

lemma sub_spin_length: "length (fst (sub_spin r n s)) \<le> length s"
proof (induction r n s rule: sub_spin.induct)
  case (1 r n)
  then show ?case by simp
next
  case (2 r n c cs)
  show ?case
  proof (cases "if c = CHR ''{'' then group_at cs else None")
    case None
    with 2 show ?thesis by (simp add: split_beta)
  next
    case (Some p)
    obtain grp rest where p: "p = (grp, rest)" by (cases p)
    from Some p have ga: "group_at cs = Some (grp, rest)" by (simp split: if_splits)
    from group_at_Some [OF ga] have cs: "cs = grp @ CHR ''}'' # rest" by simp
    have "length (choice r n (split_on CHR ''|'' grp)) \<le> length grp"
      by (rule split_on_length) (rule choice_mem, rule split_on_not_Nil)
    moreover from 2(2) [OF Some p [symmetric] refl] have "length (fst (sub_spin r (Suc n) rest)) \<le> length rest"
      by simp
    moreover have "fst (sub_spin r n (c # cs))
        = choice r n (split_on CHR ''|'' grp) @ fst (sub_spin r (Suc n) rest)"
      using Some p by (simp add: split_beta Let_def)
    moreover have "length cs = length grp + Suc (length rest)"
      by (subst cs) simp
    ultimately show ?thesis by simp
  qed
qed

lemma sub_spin_shrinks: "search_spin s \<Longrightarrow> length (fst (sub_spin r n s)) < length s"
proof (induction r n s rule: sub_spin.induct)
  case (1 r n)
  then show ?case by simp
next
  case (2 r n c cs)
  show ?case
  proof (cases "if c = CHR ''{'' then group_at cs else None")
    case None
    with 2(3) have "search_spin cs" by (auto split: if_splits)
    with 2(1) [OF None] None show ?thesis by (simp add: split_beta)
  next
    case (Some p)
    obtain grp rest where p: "p = (grp, rest)" by (cases p)
    from Some p have ga: "group_at cs = Some (grp, rest)" by (simp split: if_splits)
    from group_at_Some [OF ga] have cs: "cs = grp @ CHR ''}'' # rest" by simp
    have "length (choice r n (split_on CHR ''|'' grp)) \<le> length grp"
      by (rule split_on_length) (rule choice_mem, rule split_on_not_Nil)
    moreover have "length (fst (sub_spin r (Suc n) rest)) \<le> length rest"
      by (rule sub_spin_length)
    moreover have "fst (sub_spin r n (c # cs))
        = choice r n (split_on CHR ''|'' grp) @ fst (sub_spin r (Suc n) rest)"
      using Some p by (simp add: split_beta Let_def)
    moreover have "length cs = length grp + Suc (length rest)"
      by (subst cs) simp
    ultimately show ?thesis by simp
  qed
qed

text \<open>
  \<open>process_spintax\<close>: passes are repeated while the pattern is found. Each pass that finds
  a match makes the text shorter, so the loop ends.
\<close>

function process_spintax :: "(nat \<Rightarrow> nat) \<Rightarrow> nat \<Rightarrow> string \<Rightarrow> string \<times> nat" where
  "process_spintax r n text =
     (if search_spin text
      then (let (text', n') = sub_spin r n text in process_spintax r n' text')
      else (text, n))"
  by pat_completeness auto
termination
proof (relation "measure (\<lambda>(r, n, s). length s)")
  show "wf (measure (\<lambda>(r, n, s). length s))" by simp
next
  fix r :: "nat \<Rightarrow> nat" and n :: nat and t :: string and x xa y
  assume "search_spin t" and "x = sub_spin r n t" and "(xa, y) = x"
  then show "((r, y, xa), (r, n, t)) \<in> measure (\<lambda>(r, n, s). length s)"
    using sub_spin_shrinks [of t r n] by (cases "sub_spin r n t") auto
qed

declare process_spintax.simps [simp del]

text \<open>
  One pass of the loop on the pair of the text and the read position of the random
  stream: the body \<open>text = re.sub(pattern, replace_spin, text)\<close> of the \<open>while\<close>.
\<close>

definition spin_pass :: "(nat \<Rightarrow> nat) \<Rightarrow> string \<times> nat \<Rightarrow> string \<times> nat" where
  "spin_pass r p = sub_spin r (snd p) (fst p)"

text \<open>
  \<open>s.replace(old, new)\<close>: every occurrence of \<open>old\<close>, found from left to right from the
  end of the previous one, is replaced; an empty \<open>old\<close> matches before every character
  and at the end.
\<close>

function replace_scan :: "string \<Rightarrow> string \<Rightarrow> string \<Rightarrow> string" where
  "replace_scan old new [] = []"
| "replace_scan old new (c # cs) =
     (if old \<noteq> [] \<and> prefix old (c # cs)
      then new @ replace_scan old new (drop (length old) (c # cs))
      else c # replace_scan old new cs)"
  by pat_completeness auto
termination
  by (relation "measure (\<lambda>(old, new, s). length s)") auto

definition replace_str :: "string \<Rightarrow> string \<Rightarrow> string \<Rightarrow> string" where
  "replace_str old new s =
     (if old = [] then new @ concat (map (\<lambda>c. c # new) s) else replace_scan old new s)"

text \<open>
  \<open>replace_variables\<close>: the dictionary is an association list in insertion order, the
  order in which \<open>items()\<close> goes through it.
\<close>

fun replace_variables :: "string \<Rightarrow> (string \<times> string) list \<Rightarrow> string" where
  "replace_variables text [] = text"
| "replace_variables text ((key, val) # variables) =
     replace_variables (replace_str (''{{'' @ key @ ''}}'') val text) variables"

text \<open>
  \<open>build_message\<close>: subject first, then body, both on the same random stream. The result
  is the pair of texts and the new read position.
\<close>

definition build_message ::
  "(nat \<Rightarrow> nat) \<Rightarrow> nat \<Rightarrow> string \<Rightarrow> string \<Rightarrow> string \<Rightarrow> (string \<times> string) \<times> nat" where
  "build_message r n first_name subject_template body_template =
     (let variables = [(''first_name'', first_name)];
          subject0 = replace_variables subject_template variables;
          (subject, n1) = process_spintax r n subject0;
          body0 = replace_variables body_template variables;
          (body, n2) = process_spintax r n1 body0
      in ((subject, body), n2))"

section \<open>JSON documents and the progress file\<close>

text \<open>
  What \<open>json.load\<close> returns: \<open>None\<close>, a boolean, an integer, a float, a string, a list or
  a dictionary (its items in insertion order, the keys distinct).
\<close>

datatype json =
    JNull
  | JBool bool
  | JInt int
  | JFloat real
  | JStr string
  | JList "json list"
  | JDict "(string \<times> json) list"

datatype error =
    KeyError string
  | TypeError
  | AttributeError
  | IndexError
  | JSONDecodeError
  | UnicodeDecodeError
  | DriverError string

text \<open>Truth value of an object, as \<open>not x\<close> and \<open>if x\<close> test it.\<close>

fun truthy :: "json \<Rightarrow> bool" where
  "truthy JNull = False"
| "truthy (JBool b) = b"
| "truthy (JInt i) = (i \<noteq> 0)"
| "truthy (JFloat x) = (x \<noteq> 0)"
| "truthy (JStr s) = (s \<noteq> [])"
| "truthy (JList xs) = (xs \<noteq> [])"
| "truthy (JDict kvs) = (kvs \<noteq> [])"

text \<open>\<open>len(x)\<close>: defined on strings, lists and dictionaries, a \<open>TypeError\<close> on the rest.\<close>

fun py_len :: "json \<Rightarrow> error + nat" where
  "py_len (JStr s) = Inr (length s)"
| "py_len (JList xs) = Inr (length xs)"
| "py_len (JDict kvs) = Inr (length kvs)"
| "py_len _ = Inl TypeError"

text \<open>
  \<open>x[key]\<close> with a string key: the value in a dictionary, a \<open>KeyError\<close> when the key is
  missing, and a \<open>TypeError\<close> on everything that is not a dictionary.
\<close>

fun subscript :: "json \<Rightarrow> string \<Rightarrow> error + json" where
  "subscript (JDict kvs) key =
     (case map_of kvs key of None \<Rightarrow> Inl (KeyError key) | Some v \<Rightarrow> Inr v)"
| "subscript _ key = Inl TypeError"

text \<open>\<open>x.get(key, default)\<close>: only a dictionary has the method.\<close>

fun dict_get :: "json \<Rightarrow> string \<Rightarrow> json \<Rightarrow> error + json" where
  "dict_get (JDict kvs) key dflt =
     (case map_of kvs key of None \<Rightarrow> Inr dflt | Some v \<Rightarrow> Inr v)"
| "dict_get _ key dflt = Inl AttributeError"

text \<open>
  \<open>for entry in x\<close>: the elements of a list, the keys of a dictionary, the characters of
  a string; nothing else can be iterated.
\<close>

fun py_iter :: "json \<Rightarrow> error + json list" where
  "py_iter (JList xs) = Inr xs"
| "py_iter (JDict kvs) = Inr (map (\<lambda>kv. JStr (fst kv)) kvs)"
| "py_iter (JStr s) = Inr (map (\<lambda>c. JStr [c]) s)"
| "py_iter _ = Inl TypeError"

text \<open>
  A JSON file as the program meets it: it does not exist, \<open>json.load\<close> raises
  \<open>JSONDecodeError\<close> on it, its bytes are not text in the encoding of \<open>open\<close> and reading
  it inside \<open>json.load\<close> raises \<open>UnicodeDecodeError\<close>, or \<open>json.load\<close> returns a document.
\<close>

datatype json_file = Missing | Unparsable | Undecodable | Parsed json

text \<open>The dictionary that \<open>__init__\<close> and \<open>reset\<close> put into \<open>self.data\<close>.\<close>

definition default_data :: json where
  "default_data =
     JDict [(''campaign'', JStr ''email-campaign''), (''sent'', JList []), (''failed'', JDict []),
            (''last_updated'', JNull), (''daily_count'', JInt 0), (''daily_date'', JNull)]"

datatype notice =
    Loaded nat nat
  | CouldNotParse

text \<open>
  \<open>ProgressTracker._load\<close>, called by \<open>__init__\<close> on the default dictionary. The result is
  the new \<open>self.data\<close> and the line printed, or the exception that leaves the method. The
  document is stored as it is; the \<open>print\<close> that follows takes \<open>len\<close> of its \<open>sent\<close> and
  \<open>failed\<close> entries, outside the reach of \<open>except json.JSONDecodeError\<close>.
\<close>

definition load :: "json_file \<Rightarrow> error + (json \<times> notice option)" where
  "load file =
     (case file of
        Missing \<Rightarrow> Inr (default_data, None)
      | Unparsable \<Rightarrow> Inr (default_data, Some CouldNotParse)
      | Undecodable \<Rightarrow> Inl UnicodeDecodeError
      | Parsed doc \<Rightarrow>
          (case subscript doc ''sent'' of
             Inl e \<Rightarrow> Inl e
           | Inr s \<Rightarrow>
               (case py_len s of
                  Inl e \<Rightarrow> Inl e
                | Inr ns \<Rightarrow>
                    (case subscript doc ''failed'' of
                       Inl e \<Rightarrow> Inl e
                     | Inr f \<Rightarrow>
                         (case py_len f of
                            Inl e \<Rightarrow> Inl e
                          | Inr nf \<Rightarrow> Inr (doc, Some (Loaded ns nf)))))))"

text \<open>The JSON document that \<open>json.dump\<close> writes for a ledger.\<close>

definition ledger_json :: "ledger \<Rightarrow> json" where
  "ledger_json d =
     JDict [(''campaign'', JStr (campaign d)), (''sent'', JList (map JStr (sent d))),
            (''failed'', JDict (map (\<lambda>kv. (fst kv, JStr (snd kv))) (failed d))),
            (''last_updated'', (case last_updated d of None \<Rightarrow> JNull | Some t \<Rightarrow> JStr t)),
            (''daily_count'', JInt (daily_count d)),
            (''daily_date'', (case daily_date d of None \<Rightarrow> JNull | Some t \<Rightarrow> JStr t))]"

section \<open>The recipient fetchers\<close>

text \<open>
  A recipient is the dictionary with the keys \<open>email\<close>, \<open>first_name\<close> and \<open>source\<close>; the
  fetchers return a dictionary of recipients by address, in insertion order.
\<close>

record recipient =
  email :: string
  first_name :: string
  source :: string

type_synonym recipients = "(string \<times> recipient) list"

text \<open>
  \<open>extract_first_name\<close>. A false value (\<open>None\<close>, an empty string, zero, an empty
  container) and a string of white space give the fallback. Any other value that is not
  a string has no \<open>strip\<close> method. \<open>split()[0]\<close> of a stripped string that is not empty is
  its first run of characters up to white space.
\<close>

fun extract_first_name :: "json \<Rightarrow> error + string" where
  "extract_first_name (JStr s) =
     (if s = [] \<or> strip s = [] then Inr ''there''
      else Inr (takeWhile (\<lambda>c. \<not> is_space c) (strip s)))"
| "extract_first_name full_name =
     (if \<not> truthy full_name then Inr ''there'' else Inl AttributeError)"

text \<open>
  The body of the loop over the documents, the same in \<open>fetch_from_mongodb\<close> and in
  \<open>fetch_from_json\<close> but for the field names and the source tag. \<open>Inr\<close> is the dictionary
  after the entry (unchanged where the source says \<open>continue\<close>), \<open>Inl\<close> the exception.
\<close>

definition add_entry ::
  "string \<Rightarrow> string \<Rightarrow> string \<Rightarrow> json \<Rightarrow> recipients \<Rightarrow> error + recipients" where
  "add_entry email_key name_key src entry acc =
     (case dict_get entry email_key JNull of
        Inl e \<Rightarrow> Inl e
      | Inr (JStr raw) \<Rightarrow>
          (if raw = [] then Inr acc
           else
             (let addr = lower (strip raw) in
              if addr = [] \<or> CHR ''@'' \<notin> set addr then Inr acc
              else if addr \<in> set (map fst acc) then Inr acc
              else
                (case dict_get entry name_key JNull of
                   Inl e \<Rightarrow> Inl e
                 | Inr full_name \<Rightarrow>
                     (case extract_first_name full_name of
                        Inl e \<Rightarrow> Inl e
                      | Inr fname \<Rightarrow>
                          Inr (acc @ [(addr, \<lparr>email = addr, first_name = fname, source = src\<rparr>)])))))
      | Inr _ \<Rightarrow> Inr acc)"

text \<open>
  The loop inside the \<open>try\<close> block: it stops at the first exception, and the dictionary
  built so far stays in \<open>recipients\<close>, which the function returns after the handler.
\<close>

fun scan_entries ::
  "string \<Rightarrow> string \<Rightarrow> string \<Rightarrow> json list \<Rightarrow> recipients \<Rightarrow> recipients \<times> error option" where
  "scan_entries email_key name_key src [] acc = (acc, None)"
| "scan_entries email_key name_key src (entry # entries) acc =
     (case add_entry email_key name_key src entry acc of
        Inl e \<Rightarrow> (acc, Some e)
      | Inr acc' \<Rightarrow> scan_entries email_key name_key src entries acc')"

text \<open>
  \<open>fetch_from_json\<close>. The result is the dictionary returned and the exception that the
  handler caught and printed, if any. All of the reading is inside the \<open>try\<close> block, and
  the handler catches every \<open>Exception\<close>.
\<close>

definition fetch_from_json :: "json_file \<Rightarrow> recipients \<times> error option" where
  "fetch_from_json file =
     (case file of
        Missing \<Rightarrow> ([], None)
      | Unparsable \<Rightarrow> ([], Some JSONDecodeError)
      | Undecodable \<Rightarrow> ([], Some UnicodeDecodeError)
      | Parsed doc \<Rightarrow>
          (case dict_get doc ''recipients'' (JList []) of
             Inl e \<Rightarrow> ([], Some e)
           | Inr rs \<Rightarrow>
               (case py_iter rs of
                  Inl e \<Rightarrow> ([], Some e)
                | Inr entries \<Rightarrow> scan_entries ''email'' ''name'' ''JSON'' entries [])))"

text \<open>
  The \<open>mongodb\<close> section of the configuration. \<open>enabled\<close>, \<open>email_field\<close> and \<open>name_field\<close>
  are read with \<open>get\<close> and a default, \<open>uri\<close>, \<open>database\<close> and \<open>collection\<close> by subscript: a
  missing one is \<^const>\<open>None\<close> here and a \<open>KeyError\<close> there, raised before the \<open>try\<close> block.
\<close>

record mongo_config =
  enabled :: bool
  uri :: "string option"
  database :: "string option"
  collection :: "string option"
  email_field :: string
  name_field :: string

text \<open>
  The database as the fetcher meets it: the client or the query raises before any
  document arrives, or the cursor yields documents (dictionaries) and then ends or raises.
\<close>

datatype mongo_server =
    Unreachable string
  | Cursor "json list" "string option"

definition fetch_from_mongodb ::
  "mongo_config \<Rightarrow> mongo_server \<Rightarrow> error + (recipients \<times> error option)" where
  "fetch_from_mongodb mongo_cfg server =
     (if \<not> enabled mongo_cfg then Inr ([], None)
      else
        (case uri mongo_cfg of
           None \<Rightarrow> Inl (KeyError ''uri'')
         | Some _ \<Rightarrow>
             (case database mongo_cfg of
                None \<Rightarrow> Inl (KeyError ''database'')
              | Some _ \<Rightarrow>
                  (case collection mongo_cfg of
                     None \<Rightarrow> Inl (KeyError ''collection'')
                   | Some _ \<Rightarrow>
                       (case server of
                          Unreachable msg \<Rightarrow> Inr ([], Some (DriverError msg))
                        | Cursor docs failure \<Rightarrow>
                            (case scan_entries (email_field mongo_cfg) (name_field mongo_cfg)
                                    ''MongoDB'' docs [] of
                               (recs, Some e) \<Rightarrow> Inr (recs, Some e)
                             | (recs, None) \<Rightarrow> Inr (recs, map_option DriverError failure)))))))"

text \<open>\<open>d.update(other)\<close> and the loop \<open>if key not in d: d[key] = value\<close>.\<close>

definition dict_update :: "('k \<times> 'v) list \<Rightarrow> ('k \<times> 'v) list \<Rightarrow> ('k \<times> 'v) list" where
  "dict_update d other = foldl (\<lambda>acc kv. dict_set acc (fst kv) (snd kv)) d other"

definition add_missing :: "('k \<times> 'v) list \<Rightarrow> ('k \<times> 'v) list \<Rightarrow> ('k \<times> 'v) list" where
  "add_missing d other =
     foldl (\<lambda>acc kv. if fst kv \<in> set (map fst acc) then acc else dict_set acc (fst kv) (snd kv))
       d other"

text \<open>
  \<open>fetch_recipients\<close>. \<open>shuffle\<close> is the permutation that \<open>random.shuffle\<close> applies. The
  result is the list returned and the exceptions the two fetchers caught and printed.
\<close>

definition fetch_recipients ::
  "(recipient list \<Rightarrow> recipient list) \<Rightarrow> mongo_config \<Rightarrow> mongo_server \<Rightarrow> json_file
     \<Rightarrow> error + (recipient list \<times> error list)" where
  "fetch_recipients shuffle mongo_cfg server file =
     (case fetch_from_mongodb mongo_cfg server of
        Inl e \<Rightarrow> Inl e
      | Inr (mongo_recipients, err1) \<Rightarrow>
          (let all_recipients = dict_update [] mongo_recipients;
               (json_recipients, err2) = fetch_from_json file;
               all_recipients = add_missing all_recipients json_recipients;
               rs = shuffle (map snd all_recipients)
           in Inr (rs, (case err1 of None \<Rightarrow> [] | Some e \<Rightarrow> [e])
                       @ (case err2 of None \<Rightarrow> [] | Some e \<Rightarrow> [e]))))"

section \<open>The campaign driver\<close>

text \<open>
  The configuration after \<open>load_config\<close>, with the defaults of the \<open>get\<close> calls filled in,
  and the two templates after \<open>load_template\<close>. Both loaders end the program before the
  progress file is touched when their file is missing or malformed; \<open>run_campaign\<close> is
  modelled from the point where they have returned.
\<close>

record config =
  sender_name :: string
  daily_limit :: int
  mongodb :: mongo_config

text \<open>
  What lies outside the program during one run. The clock is read at the quota check
  (reading 0) and at the \<open>i\<close>-th send attempt (reading \<open>i\<close>), as a UTC date and as a time
  stamp. \<open>gmail_send i to subject body sender\<close> is \<open>None\<close> when the \<open>i\<close>-th call of \<open>send_email\<close>
  returns and the text of the exception when it raises. \<open>gmail_auth\<close> tells whether
  \<open>authenticate\<close> returns. The random stream is read from position 0.
\<close>

record world =
  clock_date :: "nat \<Rightarrow> string"
  clock_time :: "nat \<Rightarrow> string"
  gmail_send :: "nat \<Rightarrow> string \<Rightarrow> string \<Rightarrow> string \<Rightarrow> string \<Rightarrow> string option"
  gmail_auth :: bool
  random_stream :: "nat \<Rightarrow> nat"
  random_shuffle :: "recipient list \<Rightarrow> recipient list"
  mongo :: mongo_server
  emails_json :: json_file

text \<open>
  What a run does to the outside: calls of \<open>send_email\<close> with their result, the cooldown
  after a rate-limit error and the delay between two recipients.
\<close>

datatype event =
    Send string string string "string option"
  | Cooldown
  | Delay

fun attempted :: "event list \<Rightarrow> string list" where
  "attempted [] = []"
| "attempted (Send to subject body res # evs) = to # attempted evs"
| "attempted (_ # evs) = attempted evs"

fun delivered :: "event list \<Rightarrow> string list" where
  "delivered [] = []"
| "delivered (Send to subject body None # evs) = to # delivered evs"
| "delivered (_ # evs) = delivered evs"

datatype outcome =
    DailyLimitReached
  | NoRecipients
  | AllSent
  | DryRun "(recipient \<times> string) list" "string \<times> string \<times> string \<times> string"
  | AuthExit
  | Completed nat

record run =
  outcome :: "error + outcome"
  progress :: tracker
  events :: "event list"
  reported :: "error list"

text \<open>\<open>s.capitalize()\<close> and the slice \<open>xs[:k]\<close>, which for a negative \<open>k\<close> drops the last \<open>-k\<close>.\<close>

definition capitalize :: "string \<Rightarrow> string" where
  "capitalize s = (case s of [] \<Rightarrow> [] | c # cs \<Rightarrow> upper_char c # lower cs)"

definition slice_to :: "int \<Rightarrow> 'a list \<Rightarrow> 'a list" where
  "slice_to k xs = (if 0 \<le> k then take (nat k) xs else take (length xs - nat (- k)) xs)"

text \<open>The recipient of test mode, built from the address given with \<open>--to\<close>.\<close>

definition test_recipient :: "string \<Rightarrow> recipient" where
  "test_recipient test_email =
     (let name_part = hd (split_on CHR ''@'' test_email);
          fname = capitalize (hd (split_on CHR ''.'' name_part))
      in \<lparr>email = test_email, first_name = fname, source = ''Test''\<rparr>)"

text \<open>
  The two truncations of \<open>run_campaign\<close>: \<open>if limit\<close> holds for a limit that is given and
  not zero, and the cap applies when more are pending than remain today.
\<close>

definition apply_limits :: "int option \<Rightarrow> int \<Rightarrow> 'a list \<Rightarrow> 'a list" where
  "apply_limits limit remaining_today pending =
     (let pending = (case limit of
                       None \<Rightarrow> pending
                     | Some l \<Rightarrow> if l \<noteq> 0 then slice_to l pending else pending)
      in if int (length pending) > remaining_today
         then slice_to remaining_today pending else pending)"

text \<open>
  The preview loop of dry-run mode: one \<open>build_message\<close> per listed recipient, of which
  the subject is shown.
\<close>

fun preview_loop ::
  "(nat \<Rightarrow> nat) \<Rightarrow> nat \<Rightarrow> string \<Rightarrow> string \<Rightarrow> recipient list \<Rightarrow> (recipient \<times> string) list \<times> nat" where
  "preview_loop r n subject_template body_template [] = ([], n)"
| "preview_loop r n subject_template body_template (p # ps) =
     (let ((subject, body), n1) = build_message r n (first_name p) subject_template body_template;
          (rest, n2) = preview_loop r n1 subject_template body_template ps
      in ((p, subject) # rest, n2))"

text \<open>
  The send loop. The state is the tracker, the events so far, \<open>sent_count\<close> and the read
  position of the random stream; \<open>i\<close> counts the recipients from 1 and \<open>npending\<close> is
  \<open>len(pending)\<close>. \<open>calculate_delay\<close> draws one random number; its value, a float, only sets
  the length of the wait.
\<close>

fun send_loop ::
  "world \<Rightarrow> config \<Rightarrow> string \<Rightarrow> string \<Rightarrow> nat \<Rightarrow> nat \<Rightarrow> recipient list
     \<Rightarrow> tracker \<times> event list \<times> nat \<times> nat \<Rightarrow> tracker \<times> event list \<times> nat \<times> nat" where
  "send_loop w cfg subject_template body_template npending i [] st = st"
| "send_loop w cfg subject_template body_template npending i (p # ps) (tr, evs, sent_count, n) =
     (let ((subject, body), n1) =
            build_message (random_stream w) n (first_name p) subject_template body_template;
          res = gmail_send w i (email p) subject body (sender_name cfg);
          (tr1, evs1, sent_count1) =
            (case res of
               None \<Rightarrow>
                 (mark_sent (clock_date w i) (clock_time w i) (email p) tr,
                  evs @ [Send (email p) subject body res], sent_count + 1)
             | Some error_msg \<Rightarrow>
                 (mark_failed (clock_time w i) (email p) error_msg tr,
                  evs @ [Send (email p) subject body res]
                    @ (if sublist ''429'' error_msg \<or> sublist ''quota'' (lower error_msg)
                       then [Cooldown] else []),
                  sent_count));
          (evs2, n2) = (if i < npending then (evs1 @ [Delay], Suc n1) else (evs1, n1))
      in send_loop w cfg subject_template body_template npending (Suc i) ps
           (tr1, evs2, sent_count1, n2))"

text \<open>
  The recipients of a run: the single recipient of test mode when an address that is not
  empty is given with \<open>--to\<close>, and what \<open>fetch_recipients\<close> returns otherwise.
\<close>

definition fetch_or_test ::
  "world \<Rightarrow> config \<Rightarrow> string option \<Rightarrow> error + (recipient list \<times> error list)" where
  "fetch_or_test w cfg test_email =
     (case test_email of
        Some t \<Rightarrow>
          if t \<noteq> [] then Inr ([test_recipient t], [])
          else fetch_recipients (random_shuffle w) (mongodb cfg) (mongo w) (emails_json w)
      | None \<Rightarrow> fetch_recipients (random_shuffle w) (mongodb cfg) (mongo w) (emails_json w))"

text \<open>
  \<open>run_campaign\<close>, from the tracker that \<open>ProgressTracker()\<close> has loaded. \<open>Inl\<close> in the
  outcome is an exception that leaves the function: the \<open>KeyError\<close> of an incomplete
  \<open>mongodb\<close> section, or the \<open>IndexError\<close> of \<open>pending[0]\<close> in dry-run mode when a negative
  limit has emptied the list.
\<close>

definition run_campaign ::
  "world \<Rightarrow> config \<Rightarrow> string \<Rightarrow> string \<Rightarrow> tracker \<Rightarrow> bool \<Rightarrow> int option \<Rightarrow> string option \<Rightarrow> run" where
  "run_campaign w cfg subject_template body_template tr dry_run limit test_email =
     (let stop = (\<lambda>res errs. \<lparr>outcome = res, progress = tr, events = [], reported = errs\<rparr>);
          daily_count = get_daily_count (clock_date w 0) tr
      in if daily_count \<ge> daily_limit cfg then stop (Inr DailyLimitReached) []
         else
           (let remaining_today = daily_limit cfg - daily_count
            in case fetch_or_test w cfg test_email of
                 Inl e \<Rightarrow> stop (Inl e) []
               | Inr (recipients, errs) \<Rightarrow>
                   if recipients = [] then stop (Inr NoRecipients) errs
                   else
                     (let pending = filter (\<lambda>p. \<not> is_sent tr (email p)) recipients
                      in if pending = [] then stop (Inr AllSent) errs
                         else
                           (let pending = apply_limits limit remaining_today pending
                            in if dry_run then
                                 (let (previews, n1) =
                                        preview_loop (random_stream w) 0 subject_template
                                          body_template (take 20 pending)
                                  in case pending of
                                       [] \<Rightarrow> stop (Inl IndexError) errs
                                     | sample # _ \<Rightarrow>
                                         (let ((subject, body), n2) =
                                                build_message (random_stream w) n1
                                                  (first_name sample) subject_template body_template
                                          in stop (Inr (DryRun previews
                                                (email sample, sender_name cfg, subject, body))) errs))
                               else if \<not> gmail_auth w then stop (Inr AuthExit) errs
                               else
                                 (let (tr', evs, sent_count, n') =
                                        send_loop w cfg subject_template body_template
                                          (length pending) 1 pending (tr, [], 0, 0)
                                  in \<lparr>outcome = Inr (Completed sent_count), progress = tr',
                                      events = evs, reported = errs\<rparr>)))))"

section \<open>Example inputs\<close>

text \<open>
  Inputs for the worked examples below: a random source that gives the same number at
  every position, a shuffle that keeps the order, a configuration without database, a
  ledger with one address sent, and a world whose address file has three entries and
  whose mail service rejects one address with a rate-limit error.
\<close>

definition always :: "nat \<Rightarrow> nat \<Rightarrow> nat" where
  "always k n = k"

definition keep_order :: "recipient list \<Rightarrow> recipient list" where
  "keep_order rs = rs"

definition no_mongo :: mongo_config where
  "no_mongo =
     \<lparr>enabled = False, uri = None, database = None, collection = None,
      email_field = ''email'', name_field = ''name''\<rparr>"

definition example_config :: config where
  "example_config = \<lparr>sender_name = ''Me'', daily_limit = 100, mongodb = no_mongo\<rparr>"

definition example_tracker :: tracker where
  "example_tracker = \<lparr>data = empty_ledger\<lparr>sent := [''A@x.y'']\<rparr>, written = []\<rparr>"

definition example_date :: "nat \<Rightarrow> string" where
  "example_date i = ''2024-05-02''"

definition example_time :: "nat \<Rightarrow> string" where
  "example_time i = ''2024-05-02T08:00:00+00:00''"

definition example_send :: "nat \<Rightarrow> string \<Rightarrow> string \<Rightarrow> string \<Rightarrow> string \<Rightarrow> string option" where
  "example_send i to subject body sender =
     (if to = ''b@x.y'' then Some ''HTTP 429 quota exceeded'' else None)"

definition example_world :: world where
  "example_world =
     \<lparr>clock_date = example_date, clock_time = example_time, gmail_send = example_send,
      gmail_auth = True, random_stream = always 0, random_shuffle = keep_order,
      mongo = Unreachable ''no server'',
      emails_json = Parsed (JDict [(''recipients'', JList
        [JDict [(''email'', JStr ''a@x.y''), (''name'', JStr ''Al'')],
         JDict [(''email'', JStr ''B@x.y ''), (''name'', JStr ''Bo Bo'')],
         JDict [(''email'', JStr ''c@x.y'')]])])\<rparr>"

section \<open>Properties of the progress tracker\<close>

lemma data_save: "data (save now tr) = (data tr)\<lparr>last_updated := Some now\<rparr>"
  by (simp add: save_def Let_def)

lemma get_daily_count_mark_sent:
  "get_daily_count today (mark_sent today now addr tr) = get_daily_count today tr + 1"
  by (simp add: get_daily_count_def mark_sent_def update_daily_count_def data_save)

lemma get_daily_count_mark_failed:
  "get_daily_count today (mark_failed now addr reason tr) = get_daily_count today tr"
  by (simp add: get_daily_count_def mark_failed_def data_save)

lemma get_daily_count_run_of_sends:
  "get_daily_count today (foldl (\<lambda>t e. mark_sent today now e t) tr es)
     = get_daily_count today tr + int (length es)"
  by (induction es arbitrary: tr) (simp_all add: get_daily_count_mark_sent)

text \<open>
  Claim C8. \<open>get_daily_count\<close> reads 0 when the stored date is not today's and the stored
  counter otherwise; it returns a number only, the tracker is not touched. \<open>mark_sent\<close>
  stores today's date and sets the counter to 1 when the stored date was another one, and
  adds one to it otherwise. Hence the count read after a successful send is the count read
  before plus one, a failed send leaves it alone, and after any run of successful sends on
  one day it has grown by the number of sends.
\<close>

theorem daily_count_reset_and_increment:
  "get_daily_count today tr
     = (if daily_date (data tr) = Some today then daily_count (data tr) else 0)
   \<and> daily_date (data (mark_sent today now addr tr)) = Some today
   \<and> daily_count (data (mark_sent today now addr tr))
     = (if daily_date (data tr) = Some today then daily_count (data tr) + 1 else 1)
   \<and> get_daily_count today (mark_sent today now addr tr) = get_daily_count today tr + 1
   \<and> get_daily_count today (mark_failed now addr reason tr) = get_daily_count today tr
   \<and> get_daily_count today (foldl (\<lambda>t e. mark_sent today now e t) tr es)
     = get_daily_count today tr + int (length es)"
proof -
  have "get_daily_count today tr
     = (if daily_date (data tr) = Some today then daily_count (data tr) else 0)"
    by (simp add: get_daily_count_def)
  moreover have "daily_date (data (mark_sent today now addr tr)) = Some today"
    by (simp add: mark_sent_def update_daily_count_def data_save)
  moreover have "daily_count (data (mark_sent today now addr tr))
     = (if daily_date (data tr) = Some today then daily_count (data tr) + 1 else 1)"
    by (simp add: mark_sent_def update_daily_count_def data_save)
  ultimately show ?thesis
    by (simp only: get_daily_count_mark_sent get_daily_count_mark_failed
        get_daily_count_run_of_sends simp_thms)
qed

theorem daily_count_reset_and_increment_witness:
  "get_daily_count ''2024-05-02''
     \<lparr>data = empty_ledger\<lparr>daily_count := 5, daily_date := Some ''2024-05-01''\<rparr>, written = []\<rparr> = 0
   \<and> daily_count (data (mark_sent ''2024-05-02'' ''2024-05-02T08:00:00+00:00'' ''a@b.c''
       \<lparr>data = empty_ledger\<lparr>daily_count := 5, daily_date := Some ''2024-05-01''\<rparr>,
        written = []\<rparr>)) = 1"
  using daily_count_reset_and_increment
      [of "''2024-05-02''"
        "\<lparr>data = empty_ledger\<lparr>daily_count := 5, daily_date := Some ''2024-05-01''\<rparr>, written = []\<rparr>"
        "''2024-05-02T08:00:00+00:00''" "''a@b.c''"]
  by (simp add: empty_ledger_def)

section \<open>Properties of the template expander\<close>


lemma group_at_intro:
  "grp \<noteq> [] \<Longrightarrow> \<forall>c \<in> set grp. not_brace c \<Longrightarrow> group_at (grp @ CHR ''}'' # rest) = Some (grp, rest)"
  by (simp add: group_at_def Let_def not_brace_def takeWhile_append2 dropWhile_append2)

lemma search_spin_append: "search_spin ys \<Longrightarrow> search_spin (xs @ ys)"
  by (induction xs) auto

lemma search_spin_group:
  "grp \<noteq> [] \<Longrightarrow> \<forall>c \<in> set grp. not_brace c \<Longrightarrow> search_spin (pre @ CHR ''{'' # grp @ CHR ''}'' # post)"
  by (rule search_spin_append) (simp add: group_at_intro)

lemma process_spintax_no_group: "\<not> search_spin (fst (process_spintax r n s))"
proof (induction r n s rule: process_spintax.induct)
  case (1 r n t)
  show ?case
  proof (cases "search_spin t")
    case True
    with 1 [OF True refl] show ?thesis
      by (subst process_spintax.simps) (simp add: split_beta prod_eq_iff)
  next
    case False
    then show ?thesis by (subst process_spintax.simps) simp
  qed
qed

lemma group_at_open_None:
  "(group_at (xs @ CHR ''{'' # ys) = None) = (group_at (xs @ ''{'') = None)"
proof (cases "\<forall>c \<in> set xs. not_brace c")
  case True
  then show ?thesis
    by (simp add: group_at_def Let_def not_brace_def takeWhile_append2 dropWhile_append2)
next
  case False
  then obtain x where "x \<in> set xs" "\<not> not_brace x" by blast
  then show ?thesis
    by (simp add: group_at_def Let_def takeWhile_append1 dropWhile_append1 del: not_brace_def)
      (metis dropWhile_eq_Nil_conv hd_append2)
qed

lemma sub_spin_copy:
  "\<not> search_spin (pre @ ''{'') \<Longrightarrow>
   sub_spin r n (pre @ CHR ''{'' # rest)
     = (pre @ fst (sub_spin r n (CHR ''{'' # rest)), snd (sub_spin r n (CHR ''{'' # rest)))"
proof (induction pre)
  case Nil
  then show ?case by simp
next
  case (Cons a pre)
  from Cons.prems have no: "\<not> search_spin (pre @ ''{'')"
    by simp
  from Cons.prems have here: "a = CHR ''{'' \<longrightarrow> group_at (pre @ ''{'') = None"
    by (cases "group_at (pre @ ''{'')") auto
  from here have "(if a = CHR ''{'' then group_at (pre @ CHR ''{'' # rest) else None) = None"
    using group_at_open_None [of pre rest] by simp
  then have "sub_spin r n ((a # pre) @ CHR ''{'' # rest)
      = (a # fst (sub_spin r n (pre @ CHR ''{'' # rest)), snd (sub_spin r n (pre @ CHR ''{'' # rest)))"
    by (simp add: split_beta)
  with Cons.IH [OF no] show ?case by simp
qed

lemma sub_spin_group:
  assumes "\<not> search_spin (pre @ ''{'')" and "grp \<noteq> []" and "\<forall>c \<in> set grp. not_brace c"
  shows "sub_spin r n (pre @ ''{'' @ grp @ ''}'' @ post)
     = (pre @ choice r n (split_on CHR ''|'' grp) @ fst (sub_spin r (Suc n) post),
        snd (sub_spin r (Suc n) post))"
proof -
  have "sub_spin r n (CHR ''{'' # grp @ CHR ''}'' # post)
      = (choice r n (split_on CHR ''|'' grp) @ fst (sub_spin r (Suc n) post),
         snd (sub_spin r (Suc n) post))"
    using group_at_intro [OF assms(2,3), of post] by (simp add: split_beta Let_def)
  with sub_spin_copy [OF assms(1), of r n "grp @ CHR ''}'' # post"] show ?thesis by simp
qed

lemma sub_spin_literal:
  "\<forall>c \<in> set s. c \<noteq> CHR ''{'' \<Longrightarrow> sub_spin r n s = (s, n)"
  by (induction s) auto

lemma search_spin_literal: "\<forall>c \<in> set s. c \<noteq> CHR ''{'' \<Longrightarrow> \<not> search_spin s"
  by (induction s) auto

lemma process_spintax_literal:
  "\<forall>c \<in> set s. c \<noteq> CHR ''{'' \<Longrightarrow> process_spintax r n s = (s, n)"
  by (subst process_spintax.simps) (simp add: search_spin_literal)

lemma process_spintax_step:
  "search_spin s \<Longrightarrow>
   process_spintax r n s = process_spintax r (snd (sub_spin r n s)) (fst (sub_spin r n s))"
  by (subst process_spintax.simps) (simp add: split_beta)

lemma choice_two: "choice r n [x, y] = x \<or> choice r n [x, y] = y"
  using choice_mem [of "[x, y]" r n] by auto

lemma process_spintax_nested_example:
  "fst (process_spintax r n ''{a|{b|c}}'') \<in> {''a'', ''b'', ''c''}"
proof -
  have g1: "group_at ''a|{b|c}}'' = None" by code_simp
  have g2: "group_at ''b|c}}'' = Some (''b|c'', ''}'')" by code_simp
  have pass1: "sub_spin r n ''{a|{b|c}}'' = (''{a|'' @ choice r n [''b'', ''c''] @ ''}'', Suc n)"
    using g1 g2 by (simp add: split_beta Let_def)
  have s1: "search_spin ''{a|{b|c}}''" by code_simp
  have step1: "process_spintax r n ''{a|{b|c}}''
      = process_spintax r (Suc n) (''{a|'' @ choice r n [''b'', ''c''] @ ''}'')"
    using process_spintax_step [OF s1, of r n] pass1 by simp
  have second: "fst (process_spintax r (Suc n) (''{a|'' @ x @ ''}'')) \<in> {''a'', x}"
    if x: "x = ''b'' \<or> x = ''c''" for x
  proof -
    have nb: "x \<noteq> [] \<and> (\<forall>c \<in> set (''a|'' @ x). not_brace c)"
      using x by (auto simp: not_brace_def)
    have g: "group_at (''a|'' @ x @ ''}'') = Some (''a|'' @ x, [])"
      using group_at_intro [of "''a|'' @ x" "[]"] nb by simp
    have sp: "split_on CHR ''|'' (''a|'' @ x) = [''a'', x]"
      using x by auto
    have pass2: "sub_spin r (Suc n) (''{a|'' @ x @ ''}'') = (choice r (Suc n) [''a'', x], Suc (Suc n))"
      using g sp by (simp add: split_beta Let_def)
    have s2: "search_spin (''{a|'' @ x @ ''}'')"
      using g by simp
    have lit: "\<forall>c \<in> set (choice r (Suc n) [''a'', x]). c \<noteq> CHR ''{''"
      using choice_two [of r "Suc n" "''a''" x] x by auto
    have "process_spintax r (Suc n) (''{a|'' @ x @ ''}'')
        = (choice r (Suc n) [''a'', x], Suc (Suc n))"
      using process_spintax_step [OF s2, of r "Suc n"] pass2 process_spintax_literal [OF lit]
      by simp
    then show ?thesis using choice_two [of r "Suc n" "''a''" x] by auto
  qed
  from choice_two [of r n "''b''" "''c''"] second [of "choice r n [''b'', ''c'']"] step1
  show ?thesis by auto
qed

lemma replace_scan_absent: "\<not> sublist old s \<Longrightarrow> replace_scan old new s = s"
proof (induction s)
  case Nil
  then show ?case by simp
next
  case (Cons c cs)
  then have "\<not> prefix old (c # cs)" and "\<not> sublist old cs"
    by (auto simp: sublist_Cons_right)
  with Cons.IH show ?case by simp
qed

lemma replace_scan_first:
  "old \<noteq> [] \<Longrightarrow> \<not> sublist old (pre @ butlast old) \<Longrightarrow>
   replace_scan old new (pre @ old @ post) = pre @ new @ replace_scan old new post"
proof (induction pre)
  case Nil
  then obtain c cs where eq: "old @ post = c # cs" by (cases old) auto
  have "prefix old (c # cs)" and "drop (length old) (c # cs) = post"
    unfolding eq [symmetric] by simp_all
  with Nil(1) show ?case
    using replace_scan.simps(2) [of old new c cs] by (simp add: eq)
next
  case (Cons a pre)
  from Cons.prems(2) have np: "\<not> prefix old ((a # pre) @ butlast old)"
    and ns: "\<not> sublist old (pre @ butlast old)"
    by (auto simp: sublist_Cons_right)
  have "\<not> prefix old (a # pre @ old @ post)"
  proof
    assume pf: "prefix old (a # pre @ old @ post)"
    have "a # pre @ old @ post = ((a # pre) @ butlast old) @ (last old # post)"
      using Cons.prems(1) by simp
    moreover have "length old \<le> length ((a # pre) @ butlast old)"
      by simp
    ultimately have "prefix old ((a # pre) @ butlast old)"
      using pf by (metis prefix_length_prefix prefixI)
    with np show False ..
  qed
  with Cons.IH [OF Cons.prems(1) ns] show ?case by simp
qed

lemma replace_scan_literal:
  "old = c # cs \<Longrightarrow> c \<notin> set lit \<Longrightarrow>
   replace_scan old new (lit @ rest) = lit @ replace_scan old new rest"
  by (induction lit) auto

lemma brace_free_prefix_eq:
  assumes "\<forall>c \<in> set k. not_brace c" and "\<forall>c \<in> set m. not_brace c"
    and "prefix (k @ CHR ''}'' # x) (m @ CHR ''}'' # y)"
  shows "k = m"
proof -
  from assms(3) obtain zs where "m @ CHR ''}'' # y = k @ CHR ''}'' # (x @ zs)"
    by (auto simp: prefix_def)
  then have "takeWhile not_brace (m @ CHR ''}'' # y) = takeWhile not_brace (k @ CHR ''}'' # (x @ zs))"
    by simp
  with assms(1,2) show ?thesis
    by (simp add: takeWhile_append2 not_brace_def)
qed

lemma replace_scan_unknown:
  assumes pre: "\<forall>c \<in> set pre. c \<noteq> CHR ''{''" and post: "\<forall>c \<in> set post. c \<noteq> CHR ''{''"
    and key: "\<forall>c \<in> set key. not_brace c" and name: "\<forall>c \<in> set name. not_brace c"
    and ne: "name \<noteq> key"
  shows "replace_scan (''{{'' @ key @ ''}}'') new (pre @ ''{{'' @ name @ ''}}'' @ post)
     = pre @ ''{{'' @ name @ ''}}'' @ post"
proof -
  let ?old = "''{{'' @ key @ ''}}''"
  have old: "?old = CHR ''{'' # (CHR ''{'' # key @ ''}}'')" by simp
  have a: "replace_scan ?old new (pre @ ''{{'' @ name @ ''}}'' @ post)
      = pre @ replace_scan ?old new (''{{'' @ name @ ''}}'' @ post)"
    using replace_scan_literal [OF old, of pre] pre by blast
  have np1: "\<not> prefix ?old (''{{'' @ name @ ''}}'' @ post)"
    using brace_free_prefix_eq [OF key name, of "''}''" "CHR ''}'' # post"] ne by auto
  have np2: "\<not> prefix ?old (''{'' @ name @ ''}}'' @ post)"
    using name by (cases name) (auto simp: not_brace_def)
  have lit: "CHR ''{'' \<notin> set (name @ ''}}'' @ post)"
    using name post by (auto simp: not_brace_def)
  have c: "replace_scan ?old new (name @ ''}}'' @ post) = name @ ''}}'' @ post"
    using replace_scan_literal [OF old lit, of new "[]"] by simp
  have b: "replace_scan ?old new (''{{'' @ name @ ''}}'' @ post) = ''{{'' @ name @ ''}}'' @ post"
    using np1 np2 c by simp
  from a b show ?thesis by simp
qed

lemma search_spin_skip_literal:
  "\<forall>c \<in> set lit. c \<noteq> CHR ''{'' \<Longrightarrow> search_spin (lit @ s) = search_spin s"
  by (induction lit) auto

lemma split_on_single: "sep \<notin> set s \<Longrightarrow> split_on sep s = [s]"
  by (induction s) auto

lemma choice_single: "choice r n [x] = x"
  by (simp add: choice_def)

lemma process_spintax_double_brace:
  assumes pre: "\<forall>c \<in> set pre. c \<noteq> CHR ''{''" and post: "\<forall>c \<in> set post. c \<noteq> CHR ''{''"
    and name: "\<forall>c \<in> set name. not_brace c \<and> c \<noteq> CHR ''|''" and ne: "name \<noteq> []"
  shows "process_spintax r n (pre @ ''{{'' @ name @ ''}}'' @ post) = (pre @ name @ post, Suc (Suc n))"
proof -
  have nb: "\<forall>c \<in> set name. not_brace c" and np: "CHR ''|'' \<notin> set name"
    using name by auto
  have opt: "choice r k (split_on CHR ''|'' name) = name" for k
    by (simp add: split_on_single [OF np] choice_single)
  have g0: "group_at ''{'' = None" "group_at [] = None"
    by (simp_all add: group_at_def not_brace_def)
  have ns1: "\<not> search_spin ((pre @ ''{'') @ ''{'')"
    using search_spin_skip_literal [OF pre, of "''{{''"] g0 by simp
  have ns2: "\<not> search_spin (pre @ ''{'')"
    using search_spin_skip_literal [OF pre, of "''{''"] g0 by simp
  have tail: "sub_spin r k (''}'' @ post) = (''}'' @ post, k)" for k
    using sub_spin_literal [of "''}'' @ post" r k] post by simp
  have pass1: "sub_spin r n (pre @ ''{{'' @ name @ ''}}'' @ post)
      = (pre @ ''{'' @ name @ ''}'' @ post, Suc n)"
    using sub_spin_group [OF ns1 ne nb, of r n "''}'' @ post"] opt tail by simp
  have pass2: "sub_spin r (Suc n) (pre @ ''{'' @ name @ ''}'' @ post)
      = (pre @ name @ post, Suc (Suc n))"
    using sub_spin_group [OF ns2 ne nb, of r "Suc n" post] opt sub_spin_literal [OF post] by simp
  have s1: "search_spin (pre @ ''{{'' @ name @ ''}}'' @ post)"
    using search_spin_group [OF ne nb, of "pre @ ''{''" "''}'' @ post"] by simp
  have s2: "search_spin (pre @ ''{'' @ name @ ''}'' @ post)"
    using search_spin_group [OF ne nb, of pre post] by simp
  have lit: "\<forall>c \<in> set (pre @ name @ post). c \<noteq> CHR ''{''"
    using pre post nb by (auto simp: not_brace_def)
  show ?thesis
    using process_spintax_step [OF s1, of r n] process_spintax_step [OF s2, of r "Suc n"]
      process_spintax_literal [OF lit, of r "Suc (Suc n)"] pass1 pass2
    by simp
qed

lemma build_message_unknown_placeholder:
  assumes pre: "\<forall>c \<in> set pre. c \<noteq> CHR ''{''" and post: "\<forall>c \<in> set post. c \<noteq> CHR ''{''"
    and name: "\<forall>c \<in> set name. not_brace c \<and> c \<noteq> CHR ''|''" and ne: "name \<noteq> []"
    and unknown: "name \<noteq> ''first_name''"
  shows "fst (fst (build_message r n fname (pre @ ''{{'' @ name @ ''}}'' @ post) body))
     = pre @ name @ post"
proof -
  have key: "\<forall>c \<in> set ''first_name''. not_brace c"
    by (simp add: not_brace_def)
  have nb: "\<forall>c \<in> set name. not_brace c"
    using name by auto
  have step1: "replace_variables (pre @ ''{{'' @ name @ ''}}'' @ post) [(''first_name'', fname)]
      = pre @ ''{{'' @ name @ ''}}'' @ post"
    using replace_scan_unknown [OF pre post key nb unknown, of fname]
    by (simp add: replace_str_def)
  show ?thesis
    unfolding build_message_def Let_def step1
    using process_spintax_double_brace [OF pre post name ne, of r n]
    by (simp add: split_beta)
qed

lemma replace_scan_here:
  "old \<noteq> [] \<Longrightarrow> replace_scan old new (old @ post) = new @ replace_scan old new post"
proof -
  assume ne: "old \<noteq> []"
  then obtain c cs where eq: "old @ post = c # cs" by (cases old) auto
  have "prefix old (c # cs)" and "drop (length old) (c # cs) = post"
    unfolding eq [symmetric] by simp_all
  with ne show ?thesis
    using replace_scan.simps(2) [of old new c cs] by (simp add: eq)
qed

lemma build_message_known_placeholder:
  assumes lit: "\<forall>c \<in> set (pre @ fname @ post). c \<noteq> CHR ''{''"
  shows "fst (fst (build_message r n fname (pre @ ''{{first_name}}'' @ post) body))
     = pre @ fname @ post"
proof -
  let ?old = "''{{first_name}}''"
  have old: "?old = CHR ''{'' # ''{first_name}}''" by simp
  have pre: "CHR ''{'' \<notin> set pre" and post: "CHR ''{'' \<notin> set post"
    using lit by auto
  have "replace_scan ?old fname (pre @ ?old @ post)
      = pre @ replace_scan ?old fname (?old @ post)"
    by (rule replace_scan_literal [OF old pre])
  also have "\<dots> = pre @ fname @ replace_scan ?old fname post"
    using replace_scan_here [of ?old fname post] by simp
  also have "\<dots> = pre @ fname @ post"
    using replace_scan_literal [OF old post, of fname "[]"] by simp
  finally have step1:
    "replace_variables (pre @ ?old @ post) [(''first_name'', fname)] = pre @ fname @ post"
    by (simp add: replace_str_def)
  show ?thesis
    unfolding build_message_def Let_def
    using step1 process_spintax_literal [OF lit, of r n]
    by (simp add: split_beta)
qed

lemma sub_spin_no_group: "\<not> search_spin s \<Longrightarrow> sub_spin r n s = (s, n)"
proof (induction s)
  case Nil
  then show ?case by simp
next
  case (Cons c cs)
  then have rest: "\<not> search_spin cs" by simp
  from Cons.prems have "(if c = CHR ''{'' then group_at cs else None) = None"
    by (cases "group_at cs") auto
  with Cons.IH [OF rest] show ?case by simp
qed

lemma search_spin_iff:
  "search_spin s = (\<exists>pre grp post. s = pre @ ''{'' @ grp @ ''}'' @ post
      \<and> \<not> search_spin (pre @ ''{'') \<and> grp \<noteq> [] \<and> (\<forall>c \<in> set grp. not_brace c))"
proof
  assume "search_spin s"
  then show "\<exists>pre grp post. s = pre @ ''{'' @ grp @ ''}'' @ post
      \<and> \<not> search_spin (pre @ ''{'') \<and> grp \<noteq> [] \<and> (\<forall>c \<in> set grp. not_brace c)"
  proof (induction s)
    case Nil
    then show ?case by simp
  next
    case (Cons c cs)
    show ?case
    proof (cases "c = CHR ''{'' \<and> group_at cs \<noteq> None")
      case True
      then obtain grp rest where g: "group_at cs = Some (grp, rest)" by auto
      from group_at_Some [OF g] True
      have "c # cs = [] @ ''{'' @ grp @ ''}'' @ rest" and "grp \<noteq> []" and "\<forall>c \<in> set grp. not_brace c"
        by simp_all
      moreover have "\<not> search_spin ([] @ ''{'')"
        by (simp add: group_at_def)
      ultimately show ?thesis by blast
    next
      case False
      with Cons.prems have "search_spin cs" by auto
      from Cons.IH [OF this] obtain pre grp post where
        cs: "cs = pre @ ''{'' @ grp @ ''}'' @ post" and np: "\<not> search_spin (pre @ ''{'')"
        and g: "grp \<noteq> []" "\<forall>c \<in> set grp. not_brace c"
        by blast
      from False have "c = CHR ''{'' \<longrightarrow> group_at cs = None"
        by (cases "group_at cs") auto
      then have "c = CHR ''{'' \<longrightarrow> group_at (pre @ ''{'') = None"
        using group_at_open_None [of pre "grp @ ''}'' @ post"] by (simp add: cs)
      with np have "\<not> search_spin ((c # pre) @ ''{'')"
        by auto
      moreover have "c # cs = (c # pre) @ ''{'' @ grp @ ''}'' @ post"
        using cs by simp
      ultimately show ?thesis using g by blast
    qed
  qed
next
  assume "\<exists>pre grp post. s = pre @ ''{'' @ grp @ ''}'' @ post
      \<and> \<not> search_spin (pre @ ''{'') \<and> grp \<noteq> [] \<and> (\<forall>c \<in> set grp. not_brace c)"
  then show "search_spin s"
    using search_spin_group by auto
qed

lemma process_spintax_iterates:
  "\<exists>k. process_spintax r n t = (spin_pass r ^^ k) (t, n)
       \<and> (\<forall>j < k. search_spin (fst ((spin_pass r ^^ j) (t, n))))
       \<and> \<not> search_spin (fst ((spin_pass r ^^ k) (t, n)))"
proof (induction r n t rule: process_spintax.induct)
  case (1 r n t)
  show ?case
  proof (cases "search_spin t")
    case False
    then have "process_spintax r n t = (spin_pass r ^^ 0) (t, n)"
      by (subst process_spintax.simps) simp
    with False show ?thesis
      by (intro exI [of _ 0]) simp
  next
    case True
    obtain t' n' where p: "sub_spin r n t = (t', n')" by (cases "sub_spin r n t")
    from 1 [OF True p [symmetric] refl] obtain k where
      k: "process_spintax r n' t' = (spin_pass r ^^ k) (t', n')"
        "\<forall>j < k. search_spin (fst ((spin_pass r ^^ j) (t', n')))"
        "\<not> search_spin (fst ((spin_pass r ^^ k) (t', n')))"
      by blast
    have step: "(spin_pass r ^^ Suc j) (t, n) = (spin_pass r ^^ j) (t', n')" for j
      by (simp add: funpow_swap1 spin_pass_def p)
    have "process_spintax r n t = (spin_pass r ^^ Suc k) (t, n)"
      using process_spintax_step [OF True, of r n] p k(1) step by simp
    moreover have "\<forall>j < Suc k. search_spin (fst ((spin_pass r ^^ j) (t, n)))"
    proof (intro allI impI)
      fix j assume "j < Suc k"
      then show "search_spin (fst ((spin_pass r ^^ j) (t, n)))"
        using True k(2) step by (cases j) auto
    qed
    moreover have "\<not> search_spin (fst ((spin_pass r ^^ Suc k) (t, n)))"
      using k(3) step by simp
    ultimately show ?thesis by blast
  qed
qed

lemma nested_example_value:
  "fst (process_spintax r n ''{a|{b|c}}'') = choice r (Suc n) [''a'', choice r n [''b'', ''c'']]"
proof -
  have g1: "group_at ''a|{b|c}}'' = None" by code_simp
  have g2: "group_at ''b|c}}'' = Some (''b|c'', ''}'')" by code_simp
  have pass1: "sub_spin r n ''{a|{b|c}}'' = (''{a|'' @ choice r n [''b'', ''c''] @ ''}'', Suc n)"
    using g1 g2 by (simp add: split_beta Let_def)
  have s1: "search_spin ''{a|{b|c}}''" by code_simp
  have step1: "process_spintax r n ''{a|{b|c}}''
      = process_spintax r (Suc n) (''{a|'' @ choice r n [''b'', ''c''] @ ''}'')"
    using process_spintax_step [OF s1, of r n] pass1 by simp
  have second: "fst (process_spintax r (Suc n) (''{a|'' @ x @ ''}'')) = choice r (Suc n) [''a'', x]"
    if x: "x = ''b'' \<or> x = ''c''" for x
  proof -
    have nb: "x \<noteq> [] \<and> (\<forall>c \<in> set (''a|'' @ x). not_brace c)"
      using x by (auto simp: not_brace_def)
    have g: "group_at (''a|'' @ x @ ''}'') = Some (''a|'' @ x, [])"
      using group_at_intro [of "''a|'' @ x" "[]"] nb by simp
    have sp: "split_on CHR ''|'' (''a|'' @ x) = [''a'', x]"
      using x by auto
    have pass2: "sub_spin r (Suc n) (''{a|'' @ x @ ''}'') = (choice r (Suc n) [''a'', x], Suc (Suc n))"
      using g sp by (simp add: split_beta Let_def)
    have s2: "search_spin (''{a|'' @ x @ ''}'')"
      using g by simp
    have lit: "\<forall>c \<in> set (choice r (Suc n) [''a'', x]). c \<noteq> CHR ''{''"
      using choice_two [of r "Suc n" "''a''" x] x by auto
    have "process_spintax r (Suc n) (''{a|'' @ x @ ''}'')
        = (choice r (Suc n) [''a'', x], Suc (Suc n))"
      using process_spintax_step [OF s2, of r "Suc n"] pass2 process_spintax_literal [OF lit]
      by simp
    then show ?thesis by simp
  qed
  from choice_two [of r n "''b''" "''c''"] second [of "choice r n [''b'', ''c'']"] step1
  show ?thesis by auto
qed

lemma choice_reaches: "k < length seq \<Longrightarrow> choice (always k) n seq = seq ! k"
  by (simp add: choice_def always_def)

text \<open>
  Claim C2. \<open>process_spintax\<close> always returns, and what it returns is the template after
  some number of passes: a pass was made as long as the text held an innermost choice
  group, and the text returned holds none. An innermost choice group is an opening brace,
  one or more characters other than braces, and a closing brace; \<open>re.search\<close> finds one
  exactly when the text has one. A pass leaves a text without such a group as it is. On a
  text with one it copies what stands before the first group, puts in the group's place
  one of its options, the one the random source picks (and a source that gives \<open>k\<close> picks
  option \<open>k\<close>), and goes on behind the group. On \<open>{a|{b|c}}\<close> the inner group is resolved
  first and the result is \<open>a\<close>, \<open>b\<close> or \<open>c\<close>, whatever the random source.
\<close>

theorem process_spintax_resolves_groups:
  "(\<exists>k. process_spintax r n t = (spin_pass r ^^ k) (t, n)
        \<and> (\<forall>j < k. search_spin (fst ((spin_pass r ^^ j) (t, n))))
        \<and> \<not> search_spin (fst ((spin_pass r ^^ k) (t, n))))
   \<and> spin_pass r (s, n) = sub_spin r n s
   \<and> search_spin s = (\<exists>pre grp post. s = pre @ ''{'' @ grp @ ''}'' @ post
        \<and> \<not> search_spin (pre @ ''{'') \<and> grp \<noteq> [] \<and> (\<forall>c \<in> set grp. not_brace c))
   \<and> (\<not> search_spin s \<longrightarrow> sub_spin r n s = (s, n))
   \<and> (\<not> search_spin (pre @ ''{'') \<and> grp \<noteq> [] \<and> (\<forall>c \<in> set grp. not_brace c) \<longrightarrow>
        sub_spin r n (pre @ ''{'' @ grp @ ''}'' @ post)
          = (pre @ choice r n (split_on CHR ''|'' grp) @ fst (sub_spin r (Suc n) post),
             snd (sub_spin r (Suc n) post))
        \<and> choice r n (split_on CHR ''|'' grp) \<in> set (split_on CHR ''|'' grp))
   \<and> (k < length (split_on CHR ''|'' grp) \<longrightarrow>
        choice (always k) n (split_on CHR ''|'' grp) = split_on CHR ''|'' grp ! k)
   \<and> \<not> (\<exists>pre grp post. fst (process_spintax r n t) = pre @ ''{'' @ grp @ ''}'' @ post
          \<and> grp \<noteq> [] \<and> (\<forall>c \<in> set grp. not_brace c))
   \<and> fst (process_spintax r n ''{a|{b|c}}'') = choice r (Suc n) [''a'', choice r n [''b'', ''c'']]
   \<and> fst (process_spintax r n ''{a|{b|c}}'') \<in> {''a'', ''b'', ''c''}"
proof -
  have iter: "\<exists>k. process_spintax r n t = (spin_pass r ^^ k) (t, n)
        \<and> (\<forall>j < k. search_spin (fst ((spin_pass r ^^ j) (t, n))))
        \<and> \<not> search_spin (fst ((spin_pass r ^^ k) (t, n)))"
    by (rule process_spintax_iterates)
  have pass: "spin_pass r (s, n) = sub_spin r n s"
    by (simp add: spin_pass_def)
  have found: "search_spin s = (\<exists>pre grp post. s = pre @ ''{'' @ grp @ ''}'' @ post
        \<and> \<not> search_spin (pre @ ''{'') \<and> grp \<noteq> [] \<and> (\<forall>c \<in> set grp. not_brace c))"
    by (rule search_spin_iff)
  have idle: "\<not> search_spin s \<longrightarrow> sub_spin r n s = (s, n)"
    using sub_spin_no_group [of s r n] by blast
  have first: "\<not> search_spin (pre @ ''{'') \<and> grp \<noteq> [] \<and> (\<forall>c \<in> set grp. not_brace c) \<longrightarrow>
        sub_spin r n (pre @ ''{'' @ grp @ ''}'' @ post)
          = (pre @ choice r n (split_on CHR ''|'' grp) @ fst (sub_spin r (Suc n) post),
             snd (sub_spin r (Suc n) post))
        \<and> choice r n (split_on CHR ''|'' grp) \<in> set (split_on CHR ''|'' grp)"
    using sub_spin_group [of pre grp r n post] choice_mem [OF split_on_not_Nil, of r n "CHR ''|''" grp]
    by blast
  have reach: "k < length (split_on CHR ''|'' grp) \<longrightarrow>
        choice (always k) n (split_on CHR ''|'' grp) = split_on CHR ''|'' grp ! k"
    using choice_reaches [of k "split_on CHR ''|'' grp" n] by blast
  have none: "\<not> (\<exists>pre grp post. fst (process_spintax r n t) = pre @ ''{'' @ grp @ ''}'' @ post
          \<and> grp \<noteq> [] \<and> (\<forall>c \<in> set grp. not_brace c))"
  proof
    assume "\<exists>pre grp post. fst (process_spintax r n t) = pre @ ''{'' @ grp @ ''}'' @ post
          \<and> grp \<noteq> [] \<and> (\<forall>c \<in> set grp. not_brace c)"
    then obtain pre grp post where
      eq: "fst (process_spintax r n t) = pre @ ''{'' @ grp @ ''}'' @ post"
      and g: "grp \<noteq> []" "\<forall>c \<in> set grp. not_brace c"
      by blast
    from search_spin_group [OF g, of pre post] eq have "search_spin (fst (process_spintax r n t))"
      by simp
    with process_spintax_no_group [of r n t] show False ..
  qed
  have val: "fst (process_spintax r n ''{a|{b|c}}'')
      = choice r (Suc n) [''a'', choice r n [''b'', ''c'']]"
    by (rule nested_example_value)
  have mem: "fst (process_spintax r n ''{a|{b|c}}'') \<in> {''a'', ''b'', ''c''}"
    by (rule process_spintax_nested_example)
  from iter pass found idle first reach none val mem show ?thesis
    by (intro conjI)
qed

theorem process_spintax_resolves_groups_witness:
  "\<not> search_spin ''{a|{''
   \<and> sub_spin (always 1) 0 ''{a|{b|c}}'' = (''{a|c}'', 1)
   \<and> search_spin ''{a|{b|c}}''
   \<and> fst (process_spintax (always 1) 0 ''{a|{b|c}}'') = ''c''"
proof -
  have h: "\<not> search_spin (''{a|'' @ ''{'') \<and> ''b|c'' \<noteq> [] \<and> (\<forall>c \<in> set ''b|c''. not_brace c)"
    by code_simp
  have pick: "choice (always 1) 0 (split_on CHR ''|'' ''b|c'') = ''c''"
    by code_simp
  have rest: "sub_spin (always 1) (Suc 0) ''}'' = (''}'', 1)"
    by code_simp
  have outer: "choice (always 1) (Suc 0) [''a'', choice (always 1) 0 [''b'', ''c'']] = ''c''"
    by code_simp
  have here: "search_spin ''{a|{b|c}}''"
    by code_simp
  note inst = process_spintax_resolves_groups
      [of "always 1" 0 "''{a|{b|c}}''" "''{a|{b|c}}''" "''{a|''" "''b|c''" "''}''" 1]
  from inst h pick rest have "sub_spin (always 1) 0 (''{a|'' @ ''{'' @ ''b|c'' @ ''}'' @ ''}'')
      = (''{a|'' @ ''c'' @ ''}'', 1)"
    by simp
  moreover from inst outer have "fst (process_spintax (always 1) 0 ''{a|{b|c}}'') = ''c''"
    by simp
  ultimately show ?thesis using h here by simp
qed

lemma replace_scan_match:
  "old \<noteq> [] \<Longrightarrow> prefix old s \<Longrightarrow>
   replace_scan old new s = new @ replace_scan old new (drop (length old) s)"
  by (cases s) auto

lemma replace_scan_skip:
  "\<not> prefix old (c # cs) \<Longrightarrow> replace_scan old new (c # cs) = c # replace_scan old new cs"
  by simp

lemma placeholder_no_straddle:
  assumes key: "\<forall>c \<in> set key. not_brace c"
    and pf: "prefix (''{{'' @ key @ ''}}'') (ys @ CHR ''{'' # CHR ''{'' # x)"
    and ne: "ys \<noteq> []"
  shows "prefix (''{{'' @ key @ ''}}'') ys"
proof (rule ccontr)
  let ?old = "''{{'' @ key @ ''}}''"
  assume np: "\<not> prefix ?old ys"
  from pf np obtain us where old: "?old = ys @ us" and us: "prefix us (CHR ''{'' # CHR ''{'' # x)"
    by (auto simp: prefix_append)
  from np old have "us \<noteq> []" by auto
  with us obtain us' where u: "us = CHR ''{'' # us'" and us': "prefix us' (CHR ''{'' # x)"
    by (cases us) auto
  from ne obtain y ys' where ys: "ys = y # ys'" by (cases ys) auto
  from old [unfolded ys u] have tail: "CHR ''{'' # key @ ''}}'' = ys' @ CHR ''{'' # us'"
    by auto
  show False
  proof (cases ys')
    case Nil
    with tail have "us' = key @ ''}}''" by simp
    with us' key show False
      by (cases key) (auto simp: not_brace_def)
  next
    case (Cons z zs)
    with tail have "key @ ''}}'' = zs @ CHR ''{'' # us'" by simp
    then have "CHR ''{'' \<in> set (key @ ''}}'')" by (metis in_set_conv_decomp)
    with key show False by (auto simp: not_brace_def)
  qed
qed

lemma replace_scan_split:
  assumes key: "\<forall>c \<in> set key. not_brace c"
  shows "replace_scan (''{{'' @ key @ ''}}'') new (pre @ CHR ''{'' # CHR ''{'' # x)
     = replace_scan (''{{'' @ key @ ''}}'') new pre
       @ replace_scan (''{{'' @ key @ ''}}'') new (CHR ''{'' # CHR ''{'' # x)"
proof (induction pre rule: length_induct)
  case (1 pre)
  let ?old = "''{{'' @ key @ ''}}''"
  let ?rest = "CHR ''{'' # CHR ''{'' # x"
  show ?case
  proof (cases pre)
    case Nil
    then show ?thesis by simp
  next
    case (Cons c cs)
    show ?thesis
    proof (cases "prefix ?old (c # cs)")
      case True
      then have len: "length ?old \<le> length (c # cs)" by (rule prefix_length_le)
      from True have pf: "prefix ?old ((c # cs) @ ?rest)" by (rule prefix_prefix)
      have dr: "drop (length ?old) ((c # cs) @ ?rest) = drop (length ?old) (c # cs) @ ?rest"
        using len by simp
      have shorter: "length (drop (length ?old) (c # cs)) < length pre"
        using Cons by simp
      from 1 [rule_format, OF shorter]
      have ih: "replace_scan ?old new (drop (length ?old) (c # cs) @ ?rest)
          = replace_scan ?old new (drop (length ?old) (c # cs)) @ replace_scan ?old new ?rest" .
      have one: "?old \<noteq> []" by simp
      have "replace_scan ?old new ((c # cs) @ ?rest)
          = new @ replace_scan ?old new (drop (length ?old) ((c # cs) @ ?rest))"
        by (rule replace_scan_match [OF one pf])
      also have "\<dots> = new @ replace_scan ?old new (drop (length ?old) (c # cs))
          @ replace_scan ?old new ?rest"
        by (simp only: dr ih)
      also have "\<dots> = (new @ replace_scan ?old new (drop (length ?old) (c # cs)))
          @ replace_scan ?old new ?rest"
        by (simp only: append_assoc)
      also have "new @ replace_scan ?old new (drop (length ?old) (c # cs))
          = replace_scan ?old new (c # cs)"
        by (rule replace_scan_match [OF one True, symmetric])
      finally have res: "replace_scan ?old new ((c # cs) @ ?rest)
          = replace_scan ?old new (c # cs) @ replace_scan ?old new ?rest" .
      show ?thesis unfolding Cons by (rule res)
    next
      case False
      have "\<not> prefix ?old (c # (cs @ ?rest))"
        using placeholder_no_straddle [OF key, of "c # cs" x] False by auto
      then have a: "replace_scan ?old new (c # (cs @ ?rest))
          = c # replace_scan ?old new (cs @ ?rest)"
        by (rule replace_scan_skip)
      have b: "replace_scan ?old new (c # cs) = c # replace_scan ?old new cs"
        using False by (rule replace_scan_skip)
      have "length cs < length pre" using Cons by simp
      from 1 [rule_format, OF this]
      have c: "replace_scan ?old new (cs @ ?rest)
          = replace_scan ?old new cs @ replace_scan ?old new ?rest" .
      have "replace_scan ?old new ((c # cs) @ ?rest) = replace_scan ?old new (c # (cs @ ?rest))"
        by (simp only: append_Cons)
      also have "\<dots> = c # replace_scan ?old new (cs @ ?rest)"
        by (rule a)
      also have "\<dots> = c # (replace_scan ?old new cs @ replace_scan ?old new ?rest)"
        by (simp only: c)
      also have "\<dots> = (c # replace_scan ?old new cs) @ replace_scan ?old new ?rest"
        by (rule append_Cons [symmetric])
      also have "\<dots> = replace_scan ?old new (c # cs) @ replace_scan ?old new ?rest"
        by (simp only: b)
      finally have res: "replace_scan ?old new ((c # cs) @ ?rest)
          = replace_scan ?old new (c # cs) @ replace_scan ?old new ?rest" .
      show ?thesis unfolding Cons by (rule res)
    qed
  qed
qed

lemma replace_scan_placeholder:
  assumes key: "\<forall>c \<in> set key. not_brace c" and name: "\<forall>c \<in> set name. not_brace c"
  shows "replace_scan (''{{'' @ key @ ''}}'') new (''{{'' @ name @ ''}}'' @ post)
     = (if name = key then new else ''{{'' @ name @ ''}}'')
       @ replace_scan (''{{'' @ key @ ''}}'') new post"
proof (cases "name = key")
  case True
  then show ?thesis
    using replace_scan_here [of "''{{'' @ key @ ''}}''" new post] by simp
next
  case False
  let ?old = "''{{'' @ key @ ''}}''"
  have old: "?old = CHR ''{'' # (CHR ''{'' # key @ ''}}'')" by simp
  have np1: "\<not> prefix ?old (''{{'' @ name @ ''}}'' @ post)"
    using brace_free_prefix_eq [OF key name, of "''}''" "CHR ''}'' # post"] False by auto
  have np2: "\<not> prefix ?old (''{'' @ name @ ''}}'' @ post)"
    using name by (cases name) (auto simp: not_brace_def)
  have lit: "CHR ''{'' \<notin> set (name @ ''}}'')"
    using name by (auto simp: not_brace_def)
  have c: "replace_scan ?old new ((name @ ''}}'') @ post) = (name @ ''}}'') @ replace_scan ?old new post"
    by (rule replace_scan_literal [OF old lit])
  have "replace_scan ?old new (''{{'' @ name @ ''}}'' @ post)
      = ''{{'' @ name @ ''}}'' @ replace_scan ?old new post"
    using np1 np2 c by simp
  with False show ?thesis by simp
qed

lemma replace_variables_placeholder:
  assumes key: "\<forall>c \<in> set key. not_brace c" and name: "\<forall>c \<in> set name. not_brace c"
  shows "replace_variables (pre @ ''{{'' @ name @ ''}}'' @ post) [(key, v)]
     = replace_variables pre [(key, v)]
       @ (if name = key then v else ''{{'' @ name @ ''}}'')
       @ replace_variables post [(key, v)]"
proof -
  have "replace_scan (''{{'' @ key @ ''}}'') v (pre @ CHR ''{'' # CHR ''{'' # (name @ ''}}'' @ post))
      = replace_scan (''{{'' @ key @ ''}}'') v pre
        @ replace_scan (''{{'' @ key @ ''}}'') v (CHR ''{'' # CHR ''{'' # (name @ ''}}'' @ post))"
    by (rule replace_scan_split [OF key])
  with replace_scan_placeholder [OF key name, of v post] show ?thesis
    by (simp add: replace_str_def)
qed

lemma process_spintax_no_placeholder:
  assumes "name \<noteq> []" and "\<forall>c \<in> set name. not_brace c"
  shows "\<not> sublist (''{{'' @ name @ ''}}'') (fst (process_spintax r n s))"
proof
  assume "sublist (''{{'' @ name @ ''}}'') (fst (process_spintax r n s))"
  then obtain x y where "fst (process_spintax r n s) = x @ (''{{'' @ name @ ''}}'') @ y"
    by (auto simp: sublist_def)
  then have "fst (process_spintax r n s) = (x @ ''{'') @ CHR ''{'' # name @ CHR ''}'' # (''}'' @ y)"
    by simp
  with search_spin_group [OF assms, of "x @ ''{''" "''}'' @ y"]
  have "search_spin (fst (process_spintax r n s))" by simp
  with process_spintax_no_group [of r n s] show False ..
qed

lemma build_message_no_placeholder:
  assumes "name \<noteq> []" and "\<forall>c \<in> set name. not_brace c"
  shows "\<not> sublist (''{{'' @ name @ ''}}'') (fst (fst (build_message r n v st bt)))
     \<and> \<not> sublist (''{{'' @ name @ ''}}'') (snd (fst (build_message r n v st bt)))"
  using process_spintax_no_placeholder [OF assms]
  by (simp add: build_message_def Let_def split_beta)

lemma build_message_body_unknown_placeholder:
  assumes pre: "\<forall>c \<in> set pre. c \<noteq> CHR ''{''" and post: "\<forall>c \<in> set post. c \<noteq> CHR ''{''"
    and name: "\<forall>c \<in> set name. not_brace c \<and> c \<noteq> CHR ''|''" and ne: "name \<noteq> []"
    and unknown: "name \<noteq> ''first_name''"
  shows "snd (fst (build_message r n v st (pre @ ''{{'' @ name @ ''}}'' @ post)))
     = pre @ name @ post"
proof -
  have key: "\<forall>c \<in> set ''first_name''. not_brace c"
    by (simp add: not_brace_def)
  have nb: "\<forall>c \<in> set name. not_brace c"
    using name by auto
  have step1: "replace_variables (pre @ ''{{'' @ name @ ''}}'' @ post) [(''first_name'', v)]
      = pre @ ''{{'' @ name @ ''}}'' @ post"
    using replace_scan_unknown [OF pre post key nb unknown, of v]
    by (simp add: replace_str_def)
  show ?thesis
    unfolding build_message_def Let_def step1
    using process_spintax_double_brace [OF pre post name ne, of r]
    by (simp add: split_beta)
qed

lemma build_message_body_known_placeholder:
  assumes lit: "\<forall>c \<in> set (pre @ v @ post). c \<noteq> CHR ''{''"
  shows "snd (fst (build_message r n v st (pre @ ''{{first_name}}'' @ post))) = pre @ v @ post"
proof -
  have key: "\<forall>c \<in> set ''first_name''. not_brace c"
    by (simp add: not_brace_def)
  have p: "\<not> sublist ''{{first_name}}'' pre" if "CHR ''{'' \<notin> set pre" for pre :: string
  proof
    assume "sublist ''{{first_name}}'' pre"
    then have "set ''{{first_name}}'' \<subseteq> set pre" by (rule set_mono_sublist)
    with that show False by simp
  qed
  have pre: "replace_variables pre [(''first_name'', v)] = pre"
    and post: "replace_variables post [(''first_name'', v)] = post"
    using replace_scan_absent [OF p, of pre v] replace_scan_absent [OF p, of post v] lit
    by (auto simp: replace_str_def)
  have step1: "replace_variables (pre @ ''{{first_name}}'' @ post) [(''first_name'', v)]
      = pre @ v @ post"
    using replace_variables_placeholder [OF key key, of pre post v] pre post by simp
  show ?thesis
    unfolding build_message_def Let_def
    using step1 process_spintax_literal [OF lit, of r]
    by (simp add: split_beta)
qed

text \<open>
  Claim C3, as amended. \<open>build_message\<close> calls the substitution step \<open>replace_variables\<close>
  with the one variable \<open>first_name\<close>. In every template that step replaces each
  occurrence of \<open>{{first_name}}\<close> by the value and leaves each placeholder of another name
  (a name without braces) verbatim, with both pairs of braces, and treats the text before
  and behind the placeholder on its own; a template in which the variable's placeholder
  does not occur is returned as it is. The choice-group step that follows then resolves
  the inner braces of a leftover placeholder as a group: in no expanded subject and in no
  expanded body does a placeholder with a name that is not empty and has no braces occur
  verbatim, whatever the templates. In a template with no other opening brace, a
  placeholder of an unknown name without \<open>|\<close> is expanded to the bare name, and the
  placeholder of \<open>first_name\<close> to the value, when the value has no opening brace.
\<close>

theorem replace_variables_then_spintax:
  "((\<forall>c \<in> set key. not_brace c) \<and> (\<forall>c \<in> set name. not_brace c) \<longrightarrow>
      replace_variables (pre @ ''{{'' @ name @ ''}}'' @ post) [(key, v)]
        = replace_variables pre [(key, v)]
          @ (if name = key then v else ''{{'' @ name @ ''}}'')
          @ replace_variables post [(key, v)])
   \<and> (\<not> sublist (''{{'' @ key @ ''}}'') t \<longrightarrow> replace_variables t [(key, v)] = t)
   \<and> (name \<noteq> [] \<and> (\<forall>c \<in> set name. not_brace c) \<longrightarrow>
        \<not> sublist (''{{'' @ name @ ''}}'') (fst (fst (build_message r n v st bt)))
        \<and> \<not> sublist (''{{'' @ name @ ''}}'') (snd (fst (build_message r n v st bt))))
   \<and> ((\<forall>c \<in> set (lit @ lit'). c \<noteq> CHR ''{'') \<and> name \<noteq> [] \<and> name \<noteq> ''first_name''
        \<and> (\<forall>c \<in> set name. not_brace c \<and> c \<noteq> CHR ''|'') \<longrightarrow>
        replace_variables (lit @ ''{{'' @ name @ ''}}'' @ lit') [(''first_name'', v)]
          = lit @ ''{{'' @ name @ ''}}'' @ lit'
        \<and> fst (fst (build_message r n v (lit @ ''{{'' @ name @ ''}}'' @ lit') bt))
          = lit @ name @ lit'
        \<and> snd (fst (build_message r n v st (lit @ ''{{'' @ name @ ''}}'' @ lit')))
          = lit @ name @ lit')
   \<and> ((\<forall>c \<in> set (lit @ v @ lit'). c \<noteq> CHR ''{'') \<longrightarrow>
        fst (fst (build_message r n v (lit @ ''{{first_name}}'' @ lit') bt)) = lit @ v @ lit'
        \<and> snd (fst (build_message r n v st (lit @ ''{{first_name}}'' @ lit'))) = lit @ v @ lit')"
proof -
  have a: "(\<forall>c \<in> set key. not_brace c) \<and> (\<forall>c \<in> set name. not_brace c) \<longrightarrow>
      replace_variables (pre @ ''{{'' @ name @ ''}}'' @ post) [(key, v)]
        = replace_variables pre [(key, v)]
          @ (if name = key then v else ''{{'' @ name @ ''}}'')
          @ replace_variables post [(key, v)]"
    using replace_variables_placeholder [of key name pre post v] by blast
  have b: "\<not> sublist (''{{'' @ key @ ''}}'') t \<longrightarrow> replace_variables t [(key, v)] = t"
    using replace_scan_absent [of "''{{'' @ key @ ''}}''" t v] by (simp add: replace_str_def)
  have c: "name \<noteq> [] \<and> (\<forall>c \<in> set name. not_brace c) \<longrightarrow>
        \<not> sublist (''{{'' @ name @ ''}}'') (fst (fst (build_message r n v st bt)))
        \<and> \<not> sublist (''{{'' @ name @ ''}}'') (snd (fst (build_message r n v st bt)))"
    using build_message_no_placeholder [of name r n v st bt] by blast
  have d: "(\<forall>c \<in> set (lit @ lit'). c \<noteq> CHR ''{'') \<and> name \<noteq> [] \<and> name \<noteq> ''first_name''
        \<and> (\<forall>c \<in> set name. not_brace c \<and> c \<noteq> CHR ''|'') \<longrightarrow>
        replace_variables (lit @ ''{{'' @ name @ ''}}'' @ lit') [(''first_name'', v)]
          = lit @ ''{{'' @ name @ ''}}'' @ lit'
        \<and> fst (fst (build_message r n v (lit @ ''{{'' @ name @ ''}}'' @ lit') bt))
          = lit @ name @ lit'
        \<and> snd (fst (build_message r n v st (lit @ ''{{'' @ name @ ''}}'' @ lit')))
          = lit @ name @ lit'"
  proof (intro impI, elim conjE)
    assume l: "\<forall>c \<in> set (lit @ lit'). c \<noteq> CHR ''{''" and ne: "name \<noteq> []"
      and un: "name \<noteq> ''first_name''" and nm: "\<forall>c \<in> set name. not_brace c \<and> c \<noteq> CHR ''|''"
    from l have l1: "\<forall>c \<in> set lit. c \<noteq> CHR ''{''" and l2: "\<forall>c \<in> set lit'. c \<noteq> CHR ''{''"
      by auto
    have key: "\<forall>c \<in> set ''first_name''. not_brace c"
      by (simp add: not_brace_def)
    from nm have nb: "\<forall>c \<in> set name. not_brace c" by auto
    have "replace_variables (lit @ ''{{'' @ name @ ''}}'' @ lit') [(''first_name'', v)]
          = lit @ ''{{'' @ name @ ''}}'' @ lit'"
      using replace_scan_unknown [OF l1 l2 key nb un, of v]
      by (simp add: replace_str_def)
    moreover note build_message_unknown_placeholder [OF l1 l2 nm ne un, of r n v bt]
    moreover note build_message_body_unknown_placeholder [OF l1 l2 nm ne un, of r n v st]
    ultimately show "replace_variables (lit @ ''{{'' @ name @ ''}}'' @ lit') [(''first_name'', v)]
          = lit @ ''{{'' @ name @ ''}}'' @ lit'
        \<and> fst (fst (build_message r n v (lit @ ''{{'' @ name @ ''}}'' @ lit') bt))
          = lit @ name @ lit'
        \<and> snd (fst (build_message r n v st (lit @ ''{{'' @ name @ ''}}'' @ lit')))
          = lit @ name @ lit'"
      by blast
  qed
  have e: "(\<forall>c \<in> set (lit @ v @ lit'). c \<noteq> CHR ''{'') \<longrightarrow>
        fst (fst (build_message r n v (lit @ ''{{first_name}}'' @ lit') bt)) = lit @ v @ lit'
        \<and> snd (fst (build_message r n v st (lit @ ''{{first_name}}'' @ lit'))) = lit @ v @ lit'"
    using build_message_known_placeholder [of lit v lit' r n bt]
      build_message_body_known_placeholder [of lit v lit' r n st]
    by blast
  from a b c d e show ?thesis by (intro conjI)
qed

theorem replace_variables_then_spintax_witness:
  "replace_variables ''Hi {{nickname}}!'' [(''first_name'', ''Ana'')] = ''Hi {{nickname}}!''
   \<and> fst (fst (build_message (always 0) 0 ''Ana'' ''Hi {{nickname}}!'' ''Dear {{first_name}},''))
       = ''Hi nickname!''
   \<and> \<not> sublist ''{{nickname}}''
       (snd (fst (build_message (always 0) 0 ''Ana'' ''{Hi|Hello} {{first_name}}''
          ''Dear {a|{{nickname}}},'')))"
proof -
  have h: "(\<forall>c \<in> set (''Hi '' @ ''!''). c \<noteq> CHR ''{'') \<and> ''nickname'' \<noteq> []
      \<and> ''nickname'' \<noteq> ''first_name''
      \<and> (\<forall>c \<in> set ''nickname''. not_brace c \<and> c \<noteq> CHR ''|'')"
    by code_simp
  have g: "''nickname'' \<noteq> [] \<and> (\<forall>c \<in> set ''nickname''. not_brace c)"
    by code_simp
  from replace_variables_then_spintax
      [where name = "''nickname''" and lit = "''Hi ''" and lit' = "''!''" and r = "always 0"
        and n = 0 and v = "''Ana''" and bt = "''Dear {{first_name}},''"] h
  have one: "replace_variables ''Hi {{nickname}}!'' [(''first_name'', ''Ana'')] = ''Hi {{nickname}}!''
      \<and> fst (fst (build_message (always 0) 0 ''Ana'' ''Hi {{nickname}}!'' ''Dear {{first_name}},''))
        = ''Hi nickname!''"
    by simp
  from replace_variables_then_spintax
      [where name = "''nickname''" and r = "always 0" and n = 0 and v = "''Ana''"
        and st = "''{Hi|Hello} {{first_name}}''" and bt = "''Dear {a|{{nickname}}},''"] g
  have two: "\<not> sublist ''{{nickname}}''
       (snd (fst (build_message (always 0) 0 ''Ana'' ''{Hi|Hello} {{first_name}}''
          ''Dear {a|{{nickname}}},'')))"
    by simp
  from one two show ?thesis by simp
qed

text \<open>
  Claim C3 as stated fails: the template \<open>Hi {{nickname}}!\<close> has a placeholder that is not
  in the variable mapping, and the subject that \<open>build_message\<close> returns is
  \<open>Hi nickname!\<close>, in which the placeholder with its braces does not appear.
\<close>

theorem unknown_placeholder_counterexample:
  "fst (fst (build_message (always 0) 0 ''Ana'' ''Hi {{nickname}}!'' ''Dear {{first_name}},''))
     = ''Hi nickname!''
   \<and> \<not> sublist ''{{nickname}}''
       (fst (fst (build_message (always 0) 0 ''Ana'' ''Hi {{nickname}}!'' ''Dear {{first_name}},'')))"
  by code_simp

section \<open>Properties of the progress file and the fetchers\<close>

lemma load_unparsable: "load Unparsable = Inr (default_data, Some CouldNotParse)"
  by (simp add: load_def)

lemma load_written_ledger:
  "load (Parsed (ledger_json d)) = Inr (ledger_json d, Some (Loaded (length (sent d)) (length (failed d))))"
  by (simp add: load_def ledger_json_def)

lemma scan_entries_append:
  "scan_entries ek nk src xs acc = (acc', None) \<Longrightarrow>
   scan_entries ek nk src (xs @ ys) acc = scan_entries ek nk src ys acc'"
  by (induction xs arbitrary: acc) (auto split: sum.splits)

lemma scan_entries_stops:
  "scan_entries ek nk src good acc = (acc', None) \<Longrightarrow> add_entry ek nk src bad acc' = Inl e \<Longrightarrow>
   scan_entries ek nk src (good @ bad # rest) acc = (acc', Some e)"
  by (simp add: scan_entries_append)

lemma add_entry_distinct:
  "add_entry ek nk src entry acc = Inr acc' \<Longrightarrow> distinct (map fst acc) \<Longrightarrow> distinct (map fst acc')"
  by (auto simp: add_entry_def Let_def split: sum.splits json.splits if_splits)

lemma scan_entries_distinct:
  "distinct (map fst acc) \<Longrightarrow> distinct (map fst (fst (scan_entries ek nk src xs acc)))"
proof (induction xs arbitrary: acc)
  case Nil
  then show ?case by simp
next
  case (Cons x xs)
  show ?case
  proof (cases "add_entry ek nk src x acc")
    case (Inl e)
    with Cons.prems show ?thesis by simp
  next
    case (Inr acc')
    from Inr Cons.prems have "distinct (map fst acc')" by (rule add_entry_distinct)
    with Cons.IH Inr show ?thesis by simp
  qed
qed

lemma scan_entries_result_distinct:
  "scan_entries ek nk src xs [] = (recs, err) \<Longrightarrow> distinct (map fst recs)"
  using scan_entries_distinct [of "[]" ek nk src xs] by simp

lemma fetch_from_json_distinct: "distinct (map fst (fst (fetch_from_json file)))"
  using scan_entries_distinct [of "[]"]
  by (auto simp: fetch_from_json_def split: json_file.splits sum.splits)

lemma fetch_from_mongodb_distinct:
  "fetch_from_mongodb cfg server = Inr (recs, err) \<Longrightarrow> distinct (map fst recs)"
  by (auto simp: fetch_from_mongodb_def dest: scan_entries_result_distinct
      split: if_splits option.splits mongo_server.splits prod.splits)

lemma dict_set_fresh: "k \<notin> set (map fst d) \<Longrightarrow> dict_set d k v = d @ [(k, v)]"
  by (induction d) auto

lemma dict_update_distinct:
  "distinct (map fst (d @ other)) \<Longrightarrow> dict_update d other = d @ other"
proof (induction other arbitrary: d)
  case Nil
  then show ?case by (simp add: dict_update_def)
next
  case (Cons x other)
  from Cons.prems have fresh: "fst x \<notin> set (map fst d)" and d: "distinct (map fst ((d @ [x]) @ other))"
    by auto
  have "dict_update d (x # other) = dict_update (dict_set d (fst x) (snd x)) other"
    by (simp add: dict_update_def)
  also have "\<dots> = dict_update (d @ [x]) other"
    by (simp add: dict_set_fresh [OF fresh])
  also have "\<dots> = (d @ [x]) @ other"
    by (rule Cons.IH [OF d])
  finally show ?case by simp
qed

lemma add_missing_distinct:
  "distinct (map fst other) \<Longrightarrow>
   add_missing d other = d @ filter (\<lambda>kv. fst kv \<notin> set (map fst d)) other"
proof (induction other arbitrary: d)
  case Nil
  then show ?case by (simp add: add_missing_def)
next
  case (Cons x other)
  from Cons.prems have dist: "distinct (map fst other)" and nx: "fst x \<notin> set (map fst other)"
    by auto
  show ?case
  proof (cases "fst x \<in> set (map fst d)")
    case True
    then have "add_missing d (x # other) = add_missing d other"
      by (simp add: add_missing_def)
    with Cons.IH [OF dist] True show ?thesis by simp
  next
    case False
    then have "add_missing d (x # other) = add_missing (d @ [x]) other"
      by (simp add: add_missing_def dict_set_fresh)
    also have "\<dots> = (d @ [x]) @ filter (\<lambda>kv. fst kv \<notin> set (map fst (d @ [x]))) other"
      by (rule Cons.IH [OF dist])
    also have "filter (\<lambda>kv. fst kv \<notin> set (map fst (d @ [x]))) other
        = filter (\<lambda>kv. fst kv \<notin> set (map fst d)) other"
    proof (intro filter_cong refl)
      fix kv assume "kv \<in> set other"
      then have "fst kv \<in> set (map fst other)" by simp
      with nx have "fst kv \<noteq> fst x" by metis
      then show "(fst kv \<notin> set (map fst (d @ [x]))) = (fst kv \<notin> set (map fst d))"
        by simp
    qed
    finally show ?thesis using False by simp
  qed
qed

lemma fetch_recipients_merge:
  assumes "fetch_from_mongodb cfg server = Inr (mrecs, err1)"
  shows "fetch_recipients shuffle cfg server file
     = Inr (shuffle (map snd (mrecs @ filter (\<lambda>kv. fst kv \<notin> set (map fst mrecs))
                                        (fst (fetch_from_json file)))),
            (case err1 of None \<Rightarrow> [] | Some e \<Rightarrow> [e])
            @ (case snd (fetch_from_json file) of None \<Rightarrow> [] | Some e \<Rightarrow> [e]))"
proof -
  have m: "dict_update [] mrecs = mrecs"
    using dict_update_distinct [of "[]" mrecs] fetch_from_mongodb_distinct [OF assms] by simp
  have j: "add_missing mrecs (fst (fetch_from_json file))
      = mrecs @ filter (\<lambda>kv. fst kv \<notin> set (map fst mrecs)) (fst (fetch_from_json file))"
    by (rule add_missing_distinct [OF fetch_from_json_distinct])
  show ?thesis
    using assms by (simp add: fetch_recipients_def Let_def split_beta m j)
qed

text \<open>
  Claim C4. A progress file that \<open>json.load\<close> rejects gives the default dictionary and the
  warning. A progress file that cannot be decoded as text raises \<open>UnicodeDecodeError\<close> out
  of \<open>_load\<close>. A progress file that is valid JSON but not a ledger fails too: the document
  \<open>{}\<close> raises \<open>KeyError\<close> for \<open>sent\<close>, a list or a \<open>sent\<close> entry without a length raises
  \<open>TypeError\<close>, both out of \<open>_load\<close>, and a document whose \<open>sent\<close> and \<open>failed\<close> are strings
  is taken as the ledger, with no warning.
\<close>

theorem load_valid_json_not_a_ledger:
  "load Unparsable = Inr (default_data, Some CouldNotParse)
   \<and> load Undecodable = Inl UnicodeDecodeError
   \<and> load (Parsed (JDict [])) = Inl (KeyError ''sent'')
   \<and> load (Parsed (JList [])) = Inl TypeError
   \<and> load (Parsed (JDict [(''sent'', JInt 3), (''failed'', JDict [])])) = Inl TypeError
   \<and> load (Parsed (JDict [(''sent'', JStr ''abc''), (''failed'', JStr [])]))
       = Inr (JDict [(''sent'', JStr ''abc''), (''failed'', JStr [])], Some (Loaded 3 0))"
  by (simp add: load_def)

text \<open>
  Claim C5, as amended. A source that raises inside its \<open>try\<close> block has the exception
  caught and reported, and contributes what it had collected before: nothing when the
  file does not parse, when the document is not a dictionary or when the database cannot
  be reached, and the recipients of the entries before the failing one when an entry
  raises or the cursor fails after yielding documents. \<open>fetch_recipients\<close> then returns the
  shuffled list of the database's recipients followed by those of the file whose address
  the database did not report, whatever either source reported.
\<close>

theorem failing_source_keeps_collected:
  "fetch_from_json Unparsable = ([], Some JSONDecodeError)
   \<and> fetch_from_json Undecodable = ([], Some UnicodeDecodeError)
   \<and> ((\<forall>kvs. doc \<noteq> JDict kvs) \<longrightarrow> fetch_from_json (Parsed doc) = ([], Some AttributeError))
   \<and> (scan_entries ''email'' ''name'' ''JSON'' good [] = (recs, None)
        \<and> add_entry ''email'' ''name'' ''JSON'' bad recs = Inl e \<longrightarrow>
        fetch_from_json (Parsed (JDict [(''recipients'', JList (good @ bad # rest))]))
          = (recs, Some e))
   \<and> (enabled cfg \<and> uri cfg \<noteq> None \<and> database cfg \<noteq> None \<and> collection cfg \<noteq> None \<longrightarrow>
        fetch_from_mongodb cfg (Unreachable msg) = Inr ([], Some (DriverError msg))
        \<and> (scan_entries (email_field cfg) (name_field cfg) ''MongoDB'' docs [] = (mrecs, None) \<longrightarrow>
             fetch_from_mongodb cfg (Cursor docs (Some msg)) = Inr (mrecs, Some (DriverError msg)))
        \<and> (scan_entries (email_field cfg) (name_field cfg) ''MongoDB'' good [] = (mrecs, None)
             \<and> add_entry (email_field cfg) (name_field cfg) ''MongoDB'' bad mrecs = Inl e \<longrightarrow>
             fetch_from_mongodb cfg (Cursor (good @ bad # rest) failure) = Inr (mrecs, Some e)))
   \<and> (fetch_from_mongodb cfg server = Inr (found, err1) \<longrightarrow>
        fetch_recipients shuffle cfg server file
          = Inr (shuffle (map snd (found @ filter (\<lambda>kv. fst kv \<notin> set (map fst found))
                                             (fst (fetch_from_json file)))),
                 (case err1 of None \<Rightarrow> [] | Some e \<Rightarrow> [e])
                 @ (case snd (fetch_from_json file) of None \<Rightarrow> [] | Some e \<Rightarrow> [e])))"
proof -
  have a: "fetch_from_json Unparsable = ([], Some JSONDecodeError)
      \<and> fetch_from_json Undecodable = ([], Some UnicodeDecodeError)"
    by (simp add: fetch_from_json_def)
  have b: "(\<forall>kvs. doc \<noteq> JDict kvs) \<longrightarrow> fetch_from_json (Parsed doc) = ([], Some AttributeError)"
    by (cases doc) (simp_all add: fetch_from_json_def)
  have c: "scan_entries ''email'' ''name'' ''JSON'' good [] = (recs, None)
        \<and> add_entry ''email'' ''name'' ''JSON'' bad recs = Inl e \<longrightarrow>
        fetch_from_json (Parsed (JDict [(''recipients'', JList (good @ bad # rest))]))
          = (recs, Some e)"
    by (simp add: fetch_from_json_def scan_entries_stops)
  have d: "enabled cfg \<and> uri cfg \<noteq> None \<and> database cfg \<noteq> None \<and> collection cfg \<noteq> None \<longrightarrow>
        fetch_from_mongodb cfg (Unreachable msg) = Inr ([], Some (DriverError msg))
        \<and> (scan_entries (email_field cfg) (name_field cfg) ''MongoDB'' docs [] = (mrecs, None) \<longrightarrow>
             fetch_from_mongodb cfg (Cursor docs (Some msg)) = Inr (mrecs, Some (DriverError msg)))
        \<and> (scan_entries (email_field cfg) (name_field cfg) ''MongoDB'' good [] = (mrecs, None)
             \<and> add_entry (email_field cfg) (name_field cfg) ''MongoDB'' bad mrecs = Inl e \<longrightarrow>
             fetch_from_mongodb cfg (Cursor (good @ bad # rest) failure) = Inr (mrecs, Some e))"
    by (auto simp: fetch_from_mongodb_def scan_entries_stops)
  have e: "fetch_from_mongodb cfg server = Inr (found, err1) \<longrightarrow>
        fetch_recipients shuffle cfg server file
          = Inr (shuffle (map snd (found @ filter (\<lambda>kv. fst kv \<notin> set (map fst found))
                                             (fst (fetch_from_json file)))),
                 (case err1 of None \<Rightarrow> [] | Some e \<Rightarrow> [e])
                 @ (case snd (fetch_from_json file) of None \<Rightarrow> [] | Some e \<Rightarrow> [e]))"
    using fetch_recipients_merge [of cfg server found err1 shuffle "file"] by blast
  from a b c d e show ?thesis by blast
qed

theorem failing_source_keeps_collected_witness:
  "fetch_from_json (Parsed (JDict [(''recipients'',
       JList [JDict [(''email'', JStr ''a@b.c''), (''name'', JStr ''Al'')], JInt 5,
              JDict [(''email'', JStr ''g@h.i''), (''name'', JStr ''Gil'')]])]))
     = ([(''a@b.c'', \<lparr>email = ''a@b.c'', first_name = ''Al'', source = ''JSON''\<rparr>)],
        Some AttributeError)"
proof -
  let ?good = "[JDict [(''email'', JStr ''a@b.c''), (''name'', JStr ''Al'')]]"
  let ?recs = "[(''a@b.c'', \<lparr>email = ''a@b.c'', first_name = ''Al'', source = ''JSON''\<rparr>)]"
  have h: "scan_entries ''email'' ''name'' ''JSON'' ?good [] = (?recs, None)
      \<and> add_entry ''email'' ''name'' ''JSON'' (JInt 5) ?recs = Inl AttributeError"
    by code_simp
  from failing_source_keeps_collected
      [of _ ?good ?recs "JInt 5" AttributeError
          "[JDict [(''email'', JStr ''g@h.i''), (''name'', JStr ''Gil'')]]"] h
  show ?thesis by simp
qed

text \<open>
  Claim C5 as stated fails: the second entry of this file has a number as its name, the
  fetcher raises on it and reports the error, and the first entry's recipient is still
  returned and reaches the aggregated result.
\<close>

theorem failing_source_counterexample:
  "fetch_from_json (Parsed (JDict [(''recipients'',
       JList [JDict [(''email'', JStr ''a@b.c''), (''name'', JStr ''Al'')],
              JDict [(''email'', JStr ''d@e.f''), (''name'', JInt 7)]])]))
     = ([(''a@b.c'', \<lparr>email = ''a@b.c'', first_name = ''Al'', source = ''JSON''\<rparr>)],
        Some AttributeError)
   \<and> fetch_recipients keep_order no_mongo (Unreachable ''no server'')
        (Parsed (JDict [(''recipients'',
           JList [JDict [(''email'', JStr ''a@b.c''), (''name'', JStr ''Al'')],
                  JDict [(''email'', JStr ''d@e.f''), (''name'', JInt 7)]])]))
     = Inr ([\<lparr>email = ''a@b.c'', first_name = ''Al'', source = ''JSON''\<rparr>], [AttributeError])"
  by code_simp

section \<open>The keys of deduplication and of the sent-set lookup\<close>








lemma lower_append: "lower (a @ b) = lower a @ lower b"
  by (simp add: lower_def)










section \<open>Properties of the campaign driver\<close>

lemma attempted_append: "attempted (xs @ ys) = attempted xs @ attempted ys"
  by (induction xs rule: attempted.induct) simp_all

lemma delivered_append: "delivered (xs @ ys) = delivered xs @ delivered ys"
  by (induction xs rule: delivered.induct) simp_all

lemma sent_mark_sent: "sent (data (mark_sent d t a tr)) = sent (data tr) @ [a]"
  by (simp add: mark_sent_def update_daily_count_def data_save)

lemma sent_mark_failed: "sent (data (mark_failed t a msg tr)) = sent (data tr)"
  by (simp add: mark_failed_def data_save)

lemma send_loop_attempted:
  "attempted (fst (snd (send_loop w cfg st bt np i ps (tr, evs, sc, n))))
     = attempted evs @ map email ps"
proof (induction ps arbitrary: i tr evs sc n)
  case Nil
  then show ?case by simp
next
  case (Cons p ps)
  show ?case
    by (simp add: Let_def split_beta attempted_append Cons.IH split: option.splits)
qed

lemma send_loop_delivered:
  "set (delivered evs) \<union> base \<subseteq> set (sent (data tr)) \<Longrightarrow>
   set (delivered (fst (snd (send_loop w cfg st bt np i ps (tr, evs, sc, n))))) \<union> base
     \<subseteq> set (sent (data (fst (send_loop w cfg st bt np i ps (tr, evs, sc, n)))))"
proof (induction ps arbitrary: i tr evs sc n)
  case Nil
  then show ?case by simp
next
  case (Cons p ps)
  let ?bm = "build_message (random_stream w) n (first_name p) st bt"
  let ?res = "gmail_send w i (email p) (fst (fst ?bm)) (snd (fst ?bm)) (sender_name cfg)"
  show ?case
  proof (cases ?res)
    case None
    have "set (delivered (evs @ [Send (email p) (fst (fst ?bm)) (snd (fst ?bm)) None])) \<union> base
        \<subseteq> set (sent (data (mark_sent (clock_date w i) (clock_time w i) (email p) tr)))"
      using Cons.prems by (auto simp: delivered_append sent_mark_sent)
    then have a: "set (delivered ((evs @ [Send (email p) (fst (fst ?bm)) (snd (fst ?bm)) None]) @ extra)) \<union> base
        \<subseteq> set (sent (data (mark_sent (clock_date w i) (clock_time w i) (email p) tr)))"
      if "extra = [] \<or> extra = [Delay]" for extra
      using that by (auto simp: delivered_append)
    show ?thesis
      using None Cons.IH [OF a [of "[]"]] Cons.IH [OF a [of "[Delay]"]]
      by (simp add: Let_def split_beta)
  next
    case (Some msg)
    have a: "set (delivered (((evs @ [Send (email p) (fst (fst ?bm)) (snd (fst ?bm)) (Some msg)]) @ cool) @ extra)) \<union> base
        \<subseteq> set (sent (data (mark_failed (clock_time w i) (email p) msg tr)))"
      if "cool = [] \<or> cool = [Cooldown]" "extra = [] \<or> extra = [Delay]" for cool extra
      using that Cons.prems by (auto simp: delivered_append sent_mark_failed)
    show ?thesis
      using Some Cons.IH [OF a [of "[]" "[]"]] Cons.IH [OF a [of "[]" "[Delay]"]]
        Cons.IH [OF a [of "[Cooldown]" "[]"]] Cons.IH [OF a [of "[Cooldown]" "[Delay]"]]
      by (simp add: Let_def split_beta)
  qed
qed

lemma slice_to_nonneg: "0 \<le> k \<Longrightarrow> slice_to k xs = take (nat k) xs"
  by (simp add: slice_to_def)

lemma set_slice_to: "set (slice_to k xs) \<subseteq> set xs"
  by (auto simp: slice_to_def dest: in_set_takeD)

lemma set_apply_limits: "set (apply_limits limit remaining pending) \<subseteq> set pending"
  using set_slice_to [of remaining pending] set_slice_to [of _ pending]
    set_slice_to [of remaining "slice_to _ pending"]
  by (auto simp: apply_limits_def Let_def split: option.splits)

lemma apply_limits_positive:
  assumes "0 < l" and "0 \<le> remaining"
  shows "apply_limits (Some l) remaining pending = take (nat remaining) (take (nat l) pending)"
proof -
  have "apply_limits (Some l) remaining pending
      = (if int (length (take (nat l) pending)) > remaining
         then take (nat remaining) (take (nat l) pending) else take (nat l) pending)"
    using assms by (simp add: apply_limits_def slice_to_def)
  also have "\<dots> = take (nat remaining) (take (nat l) pending)"
  proof (cases "int (length (take (nat l) pending)) > remaining")
    case True
    then show ?thesis by (simp only: if_True)
  next
    case False
    then have "length (take (nat l) pending) \<le> nat remaining"
      using assms(2) by linarith
    then have "take (nat remaining) (take (nat l) pending) = take (nat l) pending"
      by (rule take_all)
    with False show ?thesis by (simp only: if_False)
  qed
  finally show ?thesis .
qed

lemma apply_limits_zero: "apply_limits (Some 0) remaining pending = apply_limits None remaining pending"
  by (simp add: apply_limits_def)

lemma apply_limits_none:
  "0 \<le> remaining \<Longrightarrow> apply_limits None remaining pending = take (nat remaining) pending"
  by (auto simp: apply_limits_def slice_to_def)

lemma preview_loop_length: "length (fst (preview_loop r n st bt ps)) = length ps"
  by (induction ps arbitrary: n) (simp_all add: split_beta Let_def)

text \<open>The shape of a run: it stops without an effect, or it is the send loop.\<close>

lemma run_campaign_cases:
  "(events (run_campaign w cfg st bt tr dry_run limit test_email) = []
      \<and> progress (run_campaign w cfg st bt tr dry_run limit test_email) = tr)
   \<or> (\<not> dry_run \<and> (\<exists>recipients errs.
         fetch_or_test w cfg test_email = Inr (recipients, errs)
         \<and> events (run_campaign w cfg st bt tr dry_run limit test_email)
           = fst (snd (send_loop w cfg st bt
               (length (apply_limits limit (daily_limit cfg - get_daily_count (clock_date w 0) tr)
                  (filter (\<lambda>p. \<not> is_sent tr (email p)) recipients))) 1
               (apply_limits limit (daily_limit cfg - get_daily_count (clock_date w 0) tr)
                  (filter (\<lambda>p. \<not> is_sent tr (email p)) recipients)) (tr, [], 0, 0)))
         \<and> progress (run_campaign w cfg st bt tr dry_run limit test_email)
           = fst (send_loop w cfg st bt
               (length (apply_limits limit (daily_limit cfg - get_daily_count (clock_date w 0) tr)
                  (filter (\<lambda>p. \<not> is_sent tr (email p)) recipients))) 1
               (apply_limits limit (daily_limit cfg - get_daily_count (clock_date w 0) tr)
                  (filter (\<lambda>p. \<not> is_sent tr (email p)) recipients)) (tr, [], 0, 0))))"
  by (simp add: run_campaign_def Let_def split_beta split: sum.splits list.splits)

lemma run_campaign_attempted_pending:
  "set (attempted (events (run_campaign w cfg st bt tr dry_run limit test_email)))
     \<subseteq> {a. \<not> is_sent tr a}"
proof -
  from run_campaign_cases [of w cfg st bt tr dry_run limit test_email]
  show ?thesis
  proof (elim disjE conjE exE)
    assume "events (run_campaign w cfg st bt tr dry_run limit test_email) = []"
    then show ?thesis by simp
  next
    fix recipients :: "recipient list" and errs :: "error list"
    let ?pending = "apply_limits limit (daily_limit cfg - get_daily_count (clock_date w 0) tr)
                  (filter (\<lambda>p. \<not> is_sent tr (email p)) recipients)"
    assume ev: "events (run_campaign w cfg st bt tr dry_run limit test_email)
           = fst (snd (send_loop w cfg st bt (length ?pending) 1 ?pending (tr, [], 0, 0)))"
    have "set (attempted (events (run_campaign w cfg st bt tr dry_run limit test_email)))
        = email ` set ?pending"
      by (simp add: ev send_loop_attempted)
    moreover have "set ?pending \<subseteq> {p. \<not> is_sent tr (email p)}"
      using set_apply_limits [of limit _ "filter (\<lambda>p. \<not> is_sent tr (email p)) recipients"]
      by auto
    ultimately show ?thesis by auto
  qed
qed

lemma run_campaign_delivered_recorded:
  "set (delivered (events (run_campaign w cfg st bt tr dry_run limit test_email)))
     \<union> set (sent (data tr))
     \<subseteq> set (sent (data (progress (run_campaign w cfg st bt tr dry_run limit test_email))))"
proof -
  from run_campaign_cases [of w cfg st bt tr dry_run limit test_email]
  show ?thesis
  proof (elim disjE conjE exE)
    assume "events (run_campaign w cfg st bt tr dry_run limit test_email) = []"
      and "progress (run_campaign w cfg st bt tr dry_run limit test_email) = tr"
    then show ?thesis by simp
  next
    fix recipients :: "recipient list" and errs :: "error list"
    let ?pending = "apply_limits limit (daily_limit cfg - get_daily_count (clock_date w 0) tr)
                  (filter (\<lambda>p. \<not> is_sent tr (email p)) recipients)"
    assume ev: "events (run_campaign w cfg st bt tr dry_run limit test_email)
           = fst (snd (send_loop w cfg st bt (length ?pending) 1 ?pending (tr, [], 0, 0)))"
      and pr: "progress (run_campaign w cfg st bt tr dry_run limit test_email)
           = fst (send_loop w cfg st bt (length ?pending) 1 ?pending (tr, [], 0, 0))"
    have "set (delivered []) \<union> set (sent (data tr)) \<subseteq> set (sent (data tr))"
      by simp
    from send_loop_delivered [OF this, of w cfg st bt "length ?pending" 1 ?pending 0 0]
    show ?thesis by (simp add: ev pr)
  qed
qed

lemma apply_limits_Nil: "apply_limits limit remaining [] = []"
  using set_apply_limits [of limit remaining "[]"] by simp

lemma run_campaign_sends:
  assumes quota: "get_daily_count (clock_date w 0) tr < daily_limit cfg"
    and fetched: "fetch_or_test w cfg test_email = Inr (recipients, errs)"
    and auth: "gmail_auth w"
  shows "attempted (events (run_campaign w cfg st bt tr False limit test_email))
     = map email (apply_limits limit (daily_limit cfg - get_daily_count (clock_date w 0) tr)
         (filter (\<lambda>p. \<not> is_sent tr (email p)) recipients))"
proof (cases "filter (\<lambda>p. \<not> is_sent tr (email p)) recipients = []")
  case True
  then show ?thesis
    using quota fetched by (simp add: run_campaign_def Let_def apply_limits_Nil)
next
  case False
  then have "recipients \<noteq> []" by auto
  with False show ?thesis
    using quota fetched auth
    by (simp add: run_campaign_def Let_def split_beta send_loop_attempted)
qed

text \<open>
  Claim C1. Every address a run hands to the mail service is one that \<open>is_sent\<close> rejects
  on the ledger the run started with, so none of them is in the ledger's \<open>sent\<close> list.
  Every address delivered by a run is in the \<open>sent\<close> list of the tracker it leaves behind,
  next to those that were there before. Hence a second run, started from the tracker of
  the first with any inputs, attempts no address that the first run delivered or that
  was in \<open>sent\<close> before.
\<close>

theorem no_send_to_sent_address:
  "(\<forall>a \<in> set (attempted (events (run_campaign w cfg st bt tr dry_run limit test_email))).
       \<not> is_sent tr a \<and> a \<notin> set (sent (data tr)))
   \<and> set (delivered (events (run_campaign w cfg st bt tr dry_run limit test_email)))
       \<union> set (sent (data tr))
       \<subseteq> set (sent (data (progress (run_campaign w cfg st bt tr dry_run limit test_email))))
   \<and> set (attempted (events (run_campaign w' cfg' st' bt'
              (progress (run_campaign w cfg st bt tr dry_run limit test_email))
              dry_run' limit' test_email')))
       \<inter> (set (delivered (events (run_campaign w cfg st bt tr dry_run limit test_email)))
            \<union> set (sent (data tr))) = {}"
proof -
  let ?run1 = "run_campaign w cfg st bt tr dry_run limit test_email"
  let ?run2 = "run_campaign w' cfg' st' bt' (progress ?run1) dry_run' limit' test_email'"
  have found: "\<not> is_sent t a \<Longrightarrow> a \<notin> set (sent (data t))" for t a
    by (auto simp: is_sent_def)
  have first: "\<forall>a \<in> set (attempted (events ?run1)). \<not> is_sent tr a \<and> a \<notin> set (sent (data tr))"
    using run_campaign_attempted_pending [of w cfg st bt tr dry_run limit test_email] found
    by blast
  have recorded: "set (delivered (events ?run1)) \<union> set (sent (data tr))
      \<subseteq> set (sent (data (progress ?run1)))"
    by (rule run_campaign_delivered_recorded)
  have "\<forall>a \<in> set (attempted (events ?run2)). a \<notin> set (sent (data (progress ?run1)))"
    using run_campaign_attempted_pending
      [of w' cfg' st' bt' "progress ?run1" dry_run' limit' test_email'] found
    by blast
  with recorded have second: "set (attempted (events ?run2))
      \<inter> (set (delivered (events ?run1)) \<union> set (sent (data tr))) = {}"
    by blast
  from first recorded second show ?thesis by blast
qed

theorem no_send_to_sent_address_witness:
  "attempted (events (run_campaign example_world example_config ''{Hi|Hello} {{first_name}}''
       ''Body'' example_tracker False None None)) = [''b@x.y'', ''c@x.y'']
   \<and> \<not> is_sent example_tracker ''b@x.y'' \<and> \<not> is_sent example_tracker ''c@x.y''
   \<and> is_sent example_tracker ''a@x.y''"
proof -
  have ev: "attempted (events (run_campaign example_world example_config
       ''{Hi|Hello} {{first_name}}'' ''Body'' example_tracker False None None))
      = [''b@x.y'', ''c@x.y'']"
    by code_simp
  have dropped: "is_sent example_tracker ''a@x.y''"
    by code_simp
  from no_send_to_sent_address
      [of example_world example_config "''{Hi|Hello} {{first_name}}''" "''Body''"
          example_tracker False None None] ev dropped
  show ?thesis by simp
qed

text \<open>
  For an explicit run limit above zero the pending list is cut to the limit first and to
  the day's remaining quota second, so its length is the least of the limit, the
  remaining quota and the number pending, and a run that reaches the send loop hands
  exactly that many addresses to the mail service.
\<close>

lemma limits_compose:
  "(0 < l \<and> 0 \<le> remaining \<longrightarrow>
      apply_limits (Some l) remaining pending = take (nat remaining) (take (nat l) pending)
      \<and> int (length (apply_limits (Some l) remaining pending))
          = min l (min remaining (int (length pending))))
   \<and> (0 < l \<and> get_daily_count (clock_date w 0) tr < daily_limit cfg
        \<and> fetch_or_test w cfg test_email = Inr (recipients, errs) \<and> gmail_auth w \<longrightarrow>
      int (length (attempted (events (run_campaign w cfg st bt tr False (Some l) test_email))))
        = min l (min (daily_limit cfg - get_daily_count (clock_date w 0) tr)
            (int (length (filter (\<lambda>p. \<not> is_sent tr (email p)) recipients)))))"
proof -
  have a: "apply_limits (Some l) remaining ps = take (nat remaining) (take (nat l) ps)
      \<and> int (length (apply_limits (Some l) remaining ps))
          = min l (min remaining (int (length ps)))"
    if "0 < l" "0 \<le> remaining" for remaining and ps :: "'b list"
    using that by (simp add: apply_limits_positive [OF that])
  have b: "int (length (attempted (events (run_campaign w cfg st bt tr False (Some l) test_email))))
        = min l (min (daily_limit cfg - get_daily_count (clock_date w 0) tr)
            (int (length (filter (\<lambda>p. \<not> is_sent tr (email p)) recipients))))"
    if l: "0 < l" and quota: "get_daily_count (clock_date w 0) tr < daily_limit cfg"
      and fetched: "fetch_or_test w cfg test_email = Inr (recipients, errs)" and auth: "gmail_auth w"
  proof -
    from quota have rem: "0 \<le> daily_limit cfg - get_daily_count (clock_date w 0) tr"
      by simp
    from a [OF l rem, of "filter (\<lambda>p. \<not> is_sent tr (email p)) recipients"]
    have "int (length (apply_limits (Some l)
          (daily_limit cfg - get_daily_count (clock_date w 0) tr)
          (filter (\<lambda>p. \<not> is_sent tr (email p)) recipients)))
        = min l (min (daily_limit cfg - get_daily_count (clock_date w 0) tr)
            (int (length (filter (\<lambda>p. \<not> is_sent tr (email p)) recipients))))"
      by blast
    then show ?thesis
      by (simp only: run_campaign_sends [OF quota fetched auth] length_map)
  qed
  from a [of remaining pending] b show ?thesis by blast
qed

text \<open>
  Claim C6. With the explicit run limit 0 the test \<open>if limit\<close> is false and the first
  truncation is skipped: with a remaining quota of 10 and three pending all three are
  kept, where the least of the limit, the remaining quota and the number pending is 0,
  and the example run with \<open>--limit 0\<close> hands both of its pending addresses to the mail
  service. With the limits 10 and 2 the same lists are cut as the claim says.
\<close>

theorem limit_zero_sends_to_all_pending:
  "apply_limits (Some 0) 10 [''a'', ''b'', ''c''] = [''a'', ''b'', ''c'']
   \<and> int (length (apply_limits (Some 0) 10 [''a'', ''b'', ''c'']))
       \<noteq> min 0 (min 10 (int (length [''a'', ''b'', ''c''])))
   \<and> attempted (events (run_campaign example_world example_config
         ''{Hi|Hello} {{first_name}}'' ''Body'' example_tracker False (Some 0) None))
       = [''b@x.y'', ''c@x.y'']
   \<and> apply_limits (Some 10) 3 [''a'', ''b'', ''c'', ''d'', ''e''] = [''a'', ''b'', ''c'']
   \<and> apply_limits (Some 2) 10 [''a'', ''b'', ''c'', ''d'', ''e''] = [''a'', ''b'']
   \<and> attempted (events (run_campaign example_world example_config
         ''{Hi|Hello} {{first_name}}'' ''Body'' example_tracker False (Some 1) None))
       = [''b@x.y'']"
  by code_simp

text \<open>
  Claim C9. A run in dry-run mode returns the tracker it was given: the dictionary in
  memory is the same and nothing has been written to the progress file. It makes no call
  to the mail service, and when it ends with the preview, the preview lists at most 20
  recipients.
\<close>

theorem dry_run_leaves_store_unchanged:
  "progress (run_campaign w cfg st bt tr True limit test_email) = tr
   \<and> events (run_campaign w cfg st bt tr True limit test_email) = []
   \<and> (outcome (run_campaign w cfg st bt tr True limit test_email) = Inr (DryRun previews sample)
        \<longrightarrow> length previews \<le> 20)"
proof -
  have "progress (run_campaign w cfg st bt tr True limit test_email) = tr
      \<and> events (run_campaign w cfg st bt tr True limit test_email) = []"
    using run_campaign_cases [of w cfg st bt tr True limit test_email] by blast
  moreover have "outcome (run_campaign w cfg st bt tr True limit test_email)
      = Inr (DryRun previews sample) \<longrightarrow> length previews \<le> 20"
    by (auto simp: run_campaign_def Let_def split_beta preview_loop_length
        split: sum.splits list.splits if_splits)
  ultimately show ?thesis by blast
qed

theorem dry_run_leaves_store_unchanged_witness:
  "outcome (run_campaign example_world example_config ''{Hi|Hello} {{first_name}}'' ''Body''
       example_tracker True None None)
     = Inr (DryRun [(\<lparr>email = ''b@x.y'', first_name = ''Bo'', source = ''JSON''\<rparr>, ''Hi Bo''),
                    (\<lparr>email = ''c@x.y'', first_name = ''there'', source = ''JSON''\<rparr>, ''Hi there'')]
              (''b@x.y'', ''Me'', ''Hi Bo'', ''Body''))
   \<and> progress (run_campaign example_world example_config ''{Hi|Hello} {{first_name}}'' ''Body''
       example_tracker True None None) = example_tracker"
proof -
  have o: "outcome (run_campaign example_world example_config ''{Hi|Hello} {{first_name}}''
       ''Body'' example_tracker True None None)
     = Inr (DryRun [(\<lparr>email = ''b@x.y'', first_name = ''Bo'', source = ''JSON''\<rparr>, ''Hi Bo''),
                    (\<lparr>email = ''c@x.y'', first_name = ''there'', source = ''JSON''\<rparr>, ''Hi there'')]
              (''b@x.y'', ''Me'', ''Hi Bo'', ''Body''))"
    by code_simp
  from dry_run_leaves_store_unchanged
      [of example_world example_config "''{Hi|Hello} {{first_name}}''" "''Body''"
          example_tracker None None] o
  show ?thesis by simp
qed

text \<open>
  Claim C10. A run with the explicit limit 0 is the run without a limit, in every
  respect. The first truncation is skipped, and the pending list is cut to the day's
  remaining quota only, so that a pending list that is not empty stays so. A run with
  limit 0 that reaches the send loop hands to the mail service the pending recipients up
  to the day's remaining quota, in their order, and at least one of them when any is
  pending.
\<close>

theorem zero_limit_is_no_limit:
  "run_campaign w cfg st bt tr dry_run (Some 0) test_email
     = run_campaign w cfg st bt tr dry_run None test_email
   \<and> apply_limits (Some 0) remaining pending = apply_limits None remaining pending
   \<and> (0 \<le> remaining \<longrightarrow> apply_limits (Some 0) remaining pending = take (nat remaining) pending)
   \<and> (0 < remaining \<and> pending \<noteq> [] \<longrightarrow> apply_limits (Some 0) remaining pending \<noteq> [])
   \<and> (get_daily_count (clock_date w 0) tr < daily_limit cfg
        \<and> fetch_or_test w cfg test_email = Inr (recipients, errs) \<and> gmail_auth w \<longrightarrow>
        attempted (events (run_campaign w cfg st bt tr False (Some 0) test_email))
          = map email (take (nat (daily_limit cfg - get_daily_count (clock_date w 0) tr))
              (filter (\<lambda>p. \<not> is_sent tr (email p)) recipients))
        \<and> int (length (attempted (events (run_campaign w cfg st bt tr False (Some 0) test_email))))
          = min (daily_limit cfg - get_daily_count (clock_date w 0) tr)
              (int (length (filter (\<lambda>p. \<not> is_sent tr (email p)) recipients)))
        \<and> (filter (\<lambda>p. \<not> is_sent tr (email p)) recipients \<noteq> [] \<longrightarrow>
             attempted (events (run_campaign w cfg st bt tr False (Some 0) test_email)) \<noteq> []))"
proof -
  have a: "run_campaign w cfg st bt tr dry_run (Some 0) test_email
     = run_campaign w cfg st bt tr dry_run None test_email"
    unfolding run_campaign_def apply_limits_zero by (rule refl)
  have b: "0 \<le> remaining \<longrightarrow> apply_limits (Some 0) remaining pending = take (nat remaining) pending"
    by (simp add: apply_limits_zero apply_limits_none)
  have c: "0 < remaining \<and> pending \<noteq> [] \<longrightarrow> apply_limits (Some 0) remaining pending \<noteq> []"
    by (auto simp: apply_limits_zero apply_limits_none)
  have d: "attempted (events (run_campaign w cfg st bt tr False (Some 0) test_email))
          = map email (take (nat (daily_limit cfg - get_daily_count (clock_date w 0) tr))
              (filter (\<lambda>p. \<not> is_sent tr (email p)) recipients))
        \<and> int (length (attempted (events (run_campaign w cfg st bt tr False (Some 0) test_email))))
          = min (daily_limit cfg - get_daily_count (clock_date w 0) tr)
              (int (length (filter (\<lambda>p. \<not> is_sent tr (email p)) recipients)))
        \<and> (filter (\<lambda>p. \<not> is_sent tr (email p)) recipients \<noteq> [] \<longrightarrow>
             attempted (events (run_campaign w cfg st bt tr False (Some 0) test_email)) \<noteq> [])"
    if quota: "get_daily_count (clock_date w 0) tr < daily_limit cfg"
      and fetched: "fetch_or_test w cfg test_email = Inr (recipients, errs)" and auth: "gmail_auth w"
  proof -
    let ?rem = "daily_limit cfg - get_daily_count (clock_date w 0) tr"
    let ?pending = "filter (\<lambda>p. \<not> is_sent tr (email p)) recipients"
    from quota have rem: "0 < ?rem" by simp
    then have cut: "apply_limits (Some 0) ?rem ?pending = take (nat ?rem) ?pending"
      by (simp add: apply_limits_zero apply_limits_none)
    have ev: "attempted (events (run_campaign w cfg st bt tr False (Some 0) test_email))
        = map email (take (nat ?rem) ?pending)"
      by (simp only: run_campaign_sends [OF quota fetched auth] cut)
    have len: "int (length (map email (take (nat ?rem) ?pending)))
        = min ?rem (int (length ?pending))"
      using rem by simp
    have some: "?pending \<noteq> [] \<longrightarrow> map email (take (nat ?rem) ?pending) \<noteq> []"
      using rem by auto
    from ev len some show ?thesis by (simp only:)
  qed
  from a b c d apply_limits_zero [of remaining pending] show ?thesis by blast
qed

theorem zero_limit_is_no_limit_witness:
  "apply_limits (Some 0) 2 [''a'', ''b'', ''c''] = [''a'', ''b'']
   \<and> attempted (events (run_campaign example_world example_config
         ''{Hi|Hello} {{first_name}}'' ''Body'' example_tracker False (Some 0) None))
       = attempted (events (run_campaign example_world example_config
         ''{Hi|Hello} {{first_name}}'' ''Body'' example_tracker False None None))
   \<and> attempted (events (run_campaign example_world example_config
         ''{Hi|Hello} {{first_name}}'' ''Body'' example_tracker False (Some 0) None))
       = [''b@x.y'', ''c@x.y'']"
proof -
  let ?rs = "[\<lparr>email = ''a@x.y'', first_name = ''Al'', source = ''JSON''\<rparr>,
              \<lparr>email = ''b@x.y'', first_name = ''Bo'', source = ''JSON''\<rparr>,
              \<lparr>email = ''c@x.y'', first_name = ''there'', source = ''JSON''\<rparr>]"
  note inst = zero_limit_is_no_limit
      [of example_world example_config "''{Hi|Hello} {{first_name}}''" "''Body''"
          example_tracker False None 2 "[''a'', ''b'', ''c'']" ?rs "[]"]
  from inst have same: "run_campaign example_world example_config
        ''{Hi|Hello} {{first_name}}'' ''Body'' example_tracker False (Some 0) None
      = run_campaign example_world example_config
        ''{Hi|Hello} {{first_name}}'' ''Body'' example_tracker False None None"
    by blast
  from inst have "(0::int) \<le> 2 \<longrightarrow>
      apply_limits (Some 0) 2 [''a'', ''b'', ''c''] = take (nat 2) [''a'', ''b'', ''c'']"
    by blast
  then have cut: "apply_limits (Some 0) 2 [''a'', ''b'', ''c''] = [''a'', ''b'']"
    by simp
  have h: "get_daily_count (clock_date example_world 0) example_tracker < daily_limit example_config
      \<and> fetch_or_test example_world example_config None = Inr (?rs, [])
      \<and> gmail_auth example_world"
    by code_simp
  have v: "map email (take (nat (daily_limit example_config
          - get_daily_count (clock_date example_world 0) example_tracker))
        (filter (\<lambda>p. \<not> is_sent example_tracker (email p)) ?rs)) = [''b@x.y'', ''c@x.y'']"
    by code_simp
  from inst h have "attempted (events (run_campaign example_world example_config
         ''{Hi|Hello} {{first_name}}'' ''Body'' example_tracker False (Some 0) None))
      = map email (take (nat (daily_limit example_config
          - get_daily_count (clock_date example_world 0) example_tracker))
        (filter (\<lambda>p. \<not> is_sent example_tracker (email p)) ?rs))"
    by blast
  with v have sends: "attempted (events (run_campaign example_world example_config
         ''{Hi|Hello} {{first_name}}'' ''Body'' example_tracker False (Some 0) None))
      = [''b@x.y'', ''c@x.y'']"
    by simp
  from same cut sends show ?thesis by simp
qed

end
